theory Spec2Isabelle
  imports Complex_Main "HOL-Library.Multiset" "HOL-Library.Product_Lexorder" "HOL-Library.AList"
begin

section \<open>The outline engine of the annotation editor (class Outliner)\<close>

text \<open>
  The class \<^verbatim>\<open>Outliner\<close> is embedded function by function. JavaScript numbers are
  modelled by \<^typ>\<open>real\<close>: arithmetic is exact, and the values \<^verbatim>\<open>NaN\<close> and
  \<^verbatim>\<open>Infinity\<close> are not numbers of the model (the places where the code produces them
  are made explicit). A JavaScript array of numbers \<^verbatim>\<open>[x, y1, y2, isLeft]\<close> is a tuple,
  an array of such arrays is a list, and an in-place update of an array is the updated
  list returned.
\<close>

subsection \<open>Data\<close>

text \<open>An active interval \<^verbatim>\<open>[y1, y2]\<close>, a vertical edge \<^verbatim>\<open>[x, y1, y2, isLeft]\<close> and a
  piece of a broken edge \<^verbatim>\<open>[x, y3, y4]\<close>.\<close>

type_synonym interval = "real \<times> real"
type_synonym vedge = "real \<times> real \<times> real \<times> bool"
type_synonym fragment = "real \<times> real \<times> real"

definition edge_x :: "vedge \<Rightarrow> real" where
  "edge_x e = fst e"

definition edge_y1 :: "vedge \<Rightarrow> real" where
  "edge_y1 e = fst (snd e)"

definition edge_y2 :: "vedge \<Rightarrow> real" where
  "edge_y2 e = fst (snd (snd e))"

definition edge_isLeft :: "vedge \<Rightarrow> bool" where
  "edge_isLeft e = snd (snd (snd e))"

subsection \<open>\<^verbatim>\<open>#binarySearch\<close>, \<^verbatim>\<open>#insert\<close>, \<^verbatim>\<open>#remove\<close>\<close>

text \<open>
  The \<^verbatim>\<open>while (start <= end)\<close> loop of \<^verbatim>\<open>#binarySearch\<close>. The bounds are integers
  (\<^verbatim>\<open>end\<close> becomes \<open>-1\<close>); \<^verbatim>\<open>(start + end) >> 1\<close> is the floor of the half, which is
  \<open>div 2\<close> on \<^typ>\<open>int\<close> (the 32-bit wrap of \<^verbatim>\<open>>>\<close> needs an array of more than
  \<open>2^30\<close> intervals and is left out).
\<close>

function binarySearch_loop :: "interval list \<Rightarrow> real \<Rightarrow> int \<Rightarrow> int \<Rightarrow> nat" where
  "binarySearch_loop array y start endv =
     (if start \<le> endv then
        (let middle = (start + endv) div 2;
             y1 = fst (array ! nat middle)
         in if y1 = y then nat middle
            else if y1 < y then binarySearch_loop array y (middle + 1) endv
            else binarySearch_loop array y start (middle - 1))
      else nat (endv + 1))"
  by pat_completeness auto
termination
  by (relation "measure (\<lambda>(array, y, start, endv). nat (endv - start + 1))") auto

declare binarySearch_loop.simps [simp del]

definition binarySearch :: "interval list \<Rightarrow> real \<Rightarrow> nat" where
  "binarySearch array y = binarySearch_loop array y 0 (int (length array) - 1)"

text \<open>\<^verbatim>\<open>array.splice(index, 0, v)\<close> and \<^verbatim>\<open>array.splice(i, 1)\<close>.\<close>

definition splice_in :: "'a list \<Rightarrow> nat \<Rightarrow> 'a \<Rightarrow> 'a list" where
  "splice_in xs index v = take index xs @ v # drop index xs"

definition splice_out :: "'a list \<Rightarrow> nat \<Rightarrow> 'a list" where
  "splice_out xs i = take i xs @ drop (Suc i) xs"

definition insert_interval :: "interval list \<Rightarrow> vedge \<Rightarrow> interval list" where
  "insert_interval intervals e =
     (let index = binarySearch intervals (edge_y1 e)
      in splice_in intervals index (edge_y1 e, edge_y2 e))"

text \<open>
  The two scans of \<^verbatim>\<open>#remove\<close>. Each returns the index that is spliced out, or
  \<open>None\<close> when the scan ends (by \<^verbatim>\<open>break\<close> or by its bound) without a match.
  The backward scan at \<open>Suc i\<close> looks at index \<open>i\<close>; it starts at
  \<^verbatim>\<open>index - 1\<close>.
\<close>

function remove_forward :: "interval list \<Rightarrow> real \<Rightarrow> real \<Rightarrow> nat \<Rightarrow> nat option" where
  "remove_forward intervals y1 y2 i =
     (if i < length intervals then
        (let start = fst (intervals ! i); endv = snd (intervals ! i)
         in if start \<noteq> y1 then None
            else if start = y1 \<and> endv = y2 then Some i
            else remove_forward intervals y1 y2 (i + 1))
      else None)"
  by pat_completeness auto
termination
  by (relation "measure (\<lambda>(intervals, y1, y2, i). length intervals - i)") auto

declare remove_forward.simps [simp del]

fun remove_backward :: "interval list \<Rightarrow> real \<Rightarrow> real \<Rightarrow> nat \<Rightarrow> nat option" where
  "remove_backward intervals y1 y2 0 = None"
| "remove_backward intervals y1 y2 (Suc i) =
     (let start = fst (intervals ! i); endv = snd (intervals ! i)
      in if start \<noteq> y1 then None
         else if start = y1 \<and> endv = y2 then Some i
         else remove_backward intervals y1 y2 i)"

definition remove_interval :: "interval list \<Rightarrow> vedge \<Rightarrow> interval list" where
  "remove_interval intervals e =
     (let index = binarySearch intervals (edge_y1 e)
      in case remove_forward intervals (edge_y1 e) (edge_y2 e) index of
           Some i \<Rightarrow> splice_out intervals i
         | None \<Rightarrow>
            (case remove_backward intervals (edge_y1 e) (edge_y2 e) index of
               Some i \<Rightarrow> splice_out intervals i
             | None \<Rightarrow> intervals))"

subsection \<open>\<^verbatim>\<open>#breakEdge\<close>\<close>

text \<open>
  The inner loop over \<^verbatim>\<open>results\<close> for one interval \<^verbatim>\<open>[start, end]\<close>. The state is
  the array \<^verbatim>\<open>results\<close> and the counters \<^verbatim>\<open>j\<close> and \<^verbatim>\<open>jj\<close>; \<open>None\<close> is the early
  \<^verbatim>\<open>return []\<close>. After \<^verbatim>\<open>results.splice(j, 1); j--; jj--\<close> the loop's \<^verbatim>\<open>j++\<close> leaves
  \<^verbatim>\<open>j\<close> where it was.
\<close>

function breakEdge_inner ::
  "real \<Rightarrow> real \<Rightarrow> real \<Rightarrow> fragment list \<Rightarrow> nat \<Rightarrow> nat \<Rightarrow> fragment list option" where
  "breakEdge_inner x start endv results j jj =
     (if j < jj then
        (let y3 = fst (snd (results ! j)); y4 = snd (snd (results ! j))
         in if endv \<le> y3 \<or> y4 \<le> start then
              breakEdge_inner x start endv results (j + 1) jj
            else if y3 \<ge> start then
              (if y4 > endv then
                 breakEdge_inner x start endv
                   (results[j := (fst (results ! j), endv, y4)]) (j + 1) jj
               else if jj = 1 then None
               else breakEdge_inner x start endv (splice_out results j) j (jj - 1))
            else
              (let results1 = results[j := (fst (results ! j), y3, start)];
                   results2 = (if y4 > endv then results1 @ [(x, endv, y4)] else results1)
               in breakEdge_inner x start endv results2 (j + 1) jj))
      else Some results)"
  by pat_completeness auto
termination
  by (relation "measure (\<lambda>(x, start, endv, results, j, jj). jj - j)") auto

declare breakEdge_inner.simps [simp del]

text \<open>The outer loop \<^verbatim>\<open>for (let i = 0; i < index; i++)\<close>, over the first \<^verbatim>\<open>index\<close>
  intervals.\<close>

fun breakEdge_outer :: "real \<Rightarrow> interval list \<Rightarrow> fragment list \<Rightarrow> fragment list" where
  "breakEdge_outer x [] results = results"
| "breakEdge_outer x (iv # ivs) results =
     (case breakEdge_inner x (fst iv) (snd iv) results 0 (length results) of
        None \<Rightarrow> []
      | Some results' \<Rightarrow> breakEdge_outer x ivs results')"

definition breakEdge :: "interval list \<Rightarrow> vedge \<Rightarrow> fragment list" where
  "breakEdge intervals e =
     (let index = binarySearch intervals (edge_y2 e)
      in breakEdge_outer (edge_x e) (take index intervals)
           [(edge_x e, edge_y1 e, edge_y2 e)])"

subsection \<open>The sweep of \<^verbatim>\<open>getOutlines\<close>\<close>

text \<open>
  The loop \<^verbatim>\<open>for (const edge of this.#verticalEdges)\<close>: the state is the interval
  array and the array \<^verbatim>\<open>outlineVerticalEdges\<close>.
\<close>

fun sweep :: "vedge list \<Rightarrow> interval list \<Rightarrow> fragment list \<Rightarrow> fragment list \<times> interval list" where
  "sweep [] intervals out = (out, intervals)"
| "sweep (e # es) intervals out =
     (if edge_isLeft e then
        sweep es (insert_interval intervals e) (out @ breakEdge intervals e)
      else
        (let intervals' = remove_interval intervals e
         in sweep es intervals' (out @ breakEdge intervals' e)))"

section \<open>The interval array: order, insertion and removal\<close>

text \<open>The invariant of the interval array: it is sorted by the start \<^verbatim>\<open>y1\<close> of its
  intervals.\<close>

definition sorted_by_start :: "interval list \<Rightarrow> bool" where
  "sorted_by_start ivs = sorted (map fst ivs)"

lemma sorted_by_start_nth:
  "sorted_by_start ivs \<Longrightarrow> i \<le> j \<Longrightarrow> j < length ivs \<Longrightarrow> fst (ivs ! i) \<le> fst (ivs ! j)"
  unfolding sorted_by_start_def
  by (metis (no_types, lifting) length_map nth_map order_le_less_trans sorted_nth_mono)

text \<open>What \<^verbatim>\<open>#binarySearch\<close> returns on a sorted array: an index \<open>r\<close> with every start
  before it at most \<open>y\<close> and every start from it on at least \<open>y\<close>. When some start
  equals \<open>y\<close> the index is that of one such interval, not always the first.\<close>

definition search_post :: "interval list \<Rightarrow> real \<Rightarrow> nat \<Rightarrow> bool" where
  "search_post a y r \<longleftrightarrow>
     r \<le> length a \<and> (\<forall>i<r. fst (a ! i) \<le> y) \<and> (\<forall>i. r \<le> i \<and> i < length a \<longrightarrow> y \<le> fst (a ! i))"

lemma binarySearch_loop_spec:
  "sorted_by_start a \<Longrightarrow> 0 \<le> start \<Longrightarrow> endv < int (length a) \<Longrightarrow> start \<le> endv + 1 \<Longrightarrow>
   (\<forall>i. int i < start \<longrightarrow> fst (a ! i) < y) \<Longrightarrow>
   (\<forall>i. endv < int i \<and> i < length a \<longrightarrow> y < fst (a ! i)) \<Longrightarrow>
   search_post a y (binarySearch_loop a y start endv)"
proof (induction a y start endv rule: binarySearch_loop.induct)
  case (1 array y start endv)
  show ?case
  proof (cases "start \<le> endv")
    case False
    then have e: "endv + 1 = start" using "1.prems" by simp
    have "binarySearch_loop array y start endv = nat start"
      using False e by (subst binarySearch_loop.simps) simp
    moreover have "search_post array y (nat start)"
      unfolding search_post_def using "1.prems" e
      by (auto simp: less_imp_le)
    ultimately show ?thesis by simp
  next
    case True
    define middle where "middle = (start + endv) div 2"
    define y1 where "y1 = fst (array ! nat middle)"
    have m: "start \<le> middle" "middle \<le> endv" "0 \<le> middle" "nat middle < length array"
      using True "1.prems" by (auto simp: middle_def)
    consider (eq) "y1 = y" | (lt) "y1 \<noteq> y" "y1 < y" | (gt) "y1 \<noteq> y" "\<not> y1 < y" by blast
    then show ?thesis
    proof cases
      case eq
      have r: "binarySearch_loop array y start endv = nat middle"
        using True eq by (subst binarySearch_loop.simps) (simp add: Let_def middle_def y1_def)
      have "search_post array y (nat middle)"
        unfolding search_post_def
      proof (intro conjI allI impI)
        show "nat middle \<le> length array" using m by simp
      next
        fix i assume "i < nat middle"
        then show "fst (array ! i) \<le> y"
          using sorted_by_start_nth[OF "1.prems"(1), of i "nat middle"] m eq y1_def by simp
      next
        fix i assume "nat middle \<le> i \<and> i < length array"
        then show "y \<le> fst (array ! i)"
          using sorted_by_start_nth[OF "1.prems"(1), of "nat middle" i] m eq y1_def by simp
      qed
      then show ?thesis using r by simp
    next
      case lt
      have r: "binarySearch_loop array y start endv = binarySearch_loop array y (middle + 1) endv"
        using True lt by (subst binarySearch_loop.simps) (simp add: Let_def middle_def y1_def)
      have below: "\<forall>i. int i < middle + 1 \<longrightarrow> fst (array ! i) < y"
      proof (intro allI impI)
        fix i assume "int i < middle + 1"
        then have "i \<le> nat middle" by linarith
        then have "fst (array ! i) \<le> y1"
          using sorted_by_start_nth[OF "1.prems"(1), of i "nat middle"] m y1_def by simp
        then show "fst (array ! i) < y" using lt by simp
      qed
      have "search_post array y (binarySearch_loop array y (middle + 1) endv)"
        using "1.IH"(1)[OF True middle_def y1_def lt(1) lt(2) "1.prems"(1)] m "1.prems" below
        by simp
      then show ?thesis using r by simp
    next
      case gt
      have r: "binarySearch_loop array y start endv = binarySearch_loop array y start (middle - 1)"
        using True gt by (subst binarySearch_loop.simps) (simp add: Let_def middle_def y1_def)
      have above: "\<forall>i. middle - 1 < int i \<and> i < length array \<longrightarrow> y < fst (array ! i)"
      proof (intro allI impI)
        fix i assume a: "middle - 1 < int i \<and> i < length array"
        then have "nat middle \<le> i" by linarith
        then have "y1 \<le> fst (array ! i)"
          using sorted_by_start_nth[OF "1.prems"(1), of "nat middle" i] a y1_def by simp
        then show "y < fst (array ! i)" using gt by simp
      qed
      have "search_post array y (binarySearch_loop array y start (middle - 1))"
        using "1.IH"(2)[OF True middle_def y1_def gt(1) gt(2) "1.prems"(1)] m "1.prems" above
        by simp
      then show ?thesis using r by simp
    qed
  qed
qed

lemma binarySearch_spec:
  "sorted_by_start a \<Longrightarrow> search_post a y (binarySearch a y)"
  unfolding binarySearch_def
  by (rule binarySearch_loop_spec) auto


lemma sorted_by_start_splice_in:
  assumes "sorted_by_start a" "search_post a (fst v) r"
  shows "sorted_by_start (splice_in a r v)"
proof -
  have 1: "\<forall>p\<in>set (take r a). fst p \<le> fst v"
  proof
    fix p assume "p \<in> set (take r a)"
    then obtain i where "i < length (take r a)" "take r a ! i = p" by (auto simp: in_set_conv_nth)
    then show "fst p \<le> fst v" using assms(2) unfolding search_post_def by auto
  qed
  have 2: "\<forall>p\<in>set (drop r a). fst v \<le> fst p"
  proof
    fix p assume "p \<in> set (drop r a)"
    then obtain i where "i < length (drop r a)" "drop r a ! i = p" by (auto simp: in_set_conv_nth)
    then show "fst v \<le> fst p" using assms(2) unfolding search_post_def by auto
  qed
  have 3: "sorted (map fst (take r a))" "sorted (map fst (drop r a))"
    using assms(1) unfolding sorted_by_start_def
    by (simp_all add: sorted_wrt_take sorted_wrt_drop take_map[symmetric] drop_map[symmetric])
  have 4: "\<forall>p\<in>set (take r a). \<forall>q\<in>set (drop r a). fst p \<le> fst q"
    using 1 2 by fastforce
  show ?thesis
    unfolding sorted_by_start_def splice_in_def using 1 2 3 4
    by (auto simp: sorted_append)
qed

lemma mset_splice_in: "mset (splice_in a r v) = add_mset v (mset a)"
proof -
  have "mset (take r a) + mset (drop r a) = mset a"
    by (metis append_take_drop_id mset_append)
  then show ?thesis unfolding splice_in_def by simp
qed

lemma mset_splice_out: "i < length a \<Longrightarrow> mset (splice_out a i) = mset a - {#a ! i#}"
proof -
  assume i: "i < length a"
  have "a = take i a @ a ! i # drop (Suc i) a" using i by (simp add: id_take_nth_drop)
  then have "mset a = add_mset (a ! i) (mset (splice_out a i))"
    unfolding splice_out_def by (metis mset.simps(2) mset_append union_mset_add_mset_right)
  then show ?thesis by simp
qed

lemma sorted_by_start_splice_out:
  "sorted_by_start a \<Longrightarrow> sorted_by_start (splice_out a i)"
proof -
  assume s: "sorted_by_start a"
  have "sorted (map fst (take i a) @ map fst (drop i a))"
    using s unfolding sorted_by_start_def by (metis append_take_drop_id map_append)
  moreover have "set (drop (Suc i) a) \<subseteq> set (drop i a)" by (simp add: set_drop_subset_set_drop)
  moreover have "sorted (map fst (drop (Suc i) a))"
    using s unfolding sorted_by_start_def by (simp add: sorted_wrt_drop drop_map[symmetric])
  ultimately show ?thesis
    unfolding sorted_by_start_def splice_out_def by (auto simp: sorted_append)
qed

lemma remove_forward_Some:
  "remove_forward a y1 y2 i = Some q \<Longrightarrow> q < length a \<and> a ! q = (y1, y2) \<and> i \<le> q"
proof (induction a y1 y2 i rule: remove_forward.induct)
  case (1 intervals y1 y2 i)
  have il: "i < length intervals" and f: "fst (intervals ! i) = y1"
    using "1.prems" by (subst (asm) remove_forward.simps, auto simp: Let_def split: if_splits)+
  show ?case
  proof (cases "snd (intervals ! i) = y2")
    case True
    then have "q = i"
      using "1.prems" il f by (subst (asm) remove_forward.simps) (auto simp: Let_def)
    then show ?thesis using il f True by (auto intro: prod_eqI)
  next
    case False
    then have "remove_forward intervals y1 y2 (i + 1) = Some q"
      using "1.prems" il f by (subst (asm) remove_forward.simps) (auto simp: Let_def)
    then show ?thesis using "1.IH"[OF il refl refl _ _] f False by auto
  qed
qed

lemma remove_backward_Some:
  "remove_backward a y1 y2 n = Some q \<Longrightarrow> n \<le> length a \<Longrightarrow> q < length a \<and> a ! q = (y1, y2) \<and> q < n"
  by (induction n) (auto simp: Let_def split: if_splits intro: prod_eqI)

lemma remove_forward_complete:
  "p < length a \<Longrightarrow> a ! p = (y1, y2) \<Longrightarrow> i \<le> p \<Longrightarrow> (\<forall>k. i \<le> k \<and> k \<le> p \<longrightarrow> fst (a ! k) = y1) \<Longrightarrow>
   \<exists>q. remove_forward a y1 y2 i = Some q"
proof (induction a y1 y2 i rule: remove_forward.induct)
  case (1 intervals y1 y2 i)
  show ?case
  proof (cases "snd (intervals ! i) = y2")
    case True
    then show ?thesis using "1.prems" by (subst remove_forward.simps) (auto simp: Let_def)
  next
    case False
    then have "i \<noteq> p" using "1.prems" by auto
    then have ip: "i + 1 \<le> p" using "1.prems" by simp
    have f: "fst (intervals ! i) = y1" using "1.prems" by simp
    have "\<exists>q. remove_forward intervals y1 y2 (i + 1) = Some q"
      using "1.IH"[OF _ refl refl _ _ "1.prems"(1,2) ip] f False "1.prems" by auto
    then show ?thesis using f False "1.prems" by (subst remove_forward.simps) (auto simp: Let_def)
  qed
qed

lemma remove_backward_complete:
  "a ! p = (y1, y2) \<Longrightarrow> p < n \<Longrightarrow> (\<forall>k. p \<le> k \<and> k < n \<longrightarrow> fst (a ! k) = y1) \<Longrightarrow>
   \<exists>q. remove_backward a y1 y2 n = Some q"
proof (induction n)
  case 0
  then show ?case by simp
next
  case (Suc n)
  show ?case
  proof (cases "snd (a ! n) = y2")
    case True
    then show ?thesis using Suc.prems by (auto simp: Let_def)
  next
    case False
    then have "p \<noteq> n" using Suc.prems by auto
    then have "p < n" using Suc.prems by simp
    then show ?thesis using Suc False by (auto simp: Let_def)
  qed
qed

lemma remove_interval_cases:
  assumes "sorted_by_start a"
  shows "(\<exists>q<length a. a ! q = (edge_y1 e, edge_y2 e) \<and> remove_interval a e = splice_out a q)
       \<or> ((edge_y1 e, edge_y2 e) \<notin> set a \<and> remove_interval a e = a)"
proof -
  define y1 y2 r where "y1 = edge_y1 e" and "y2 = edge_y2 e" and "r = binarySearch a y1"
  have sp: "search_post a y1 r" unfolding r_def by (rule binarySearch_spec[OF assms])
  then have rl: "r \<le> length a" by (simp add: search_post_def)
  show ?thesis
  proof (cases "remove_forward a y1 y2 r")
    case (Some q)
    then show ?thesis
      using remove_forward_Some[OF Some]
      by (auto simp: remove_interval_def Let_def y1_def y2_def r_def)
  next
    case None
    note fwd = None
    show ?thesis
    proof (cases "remove_backward a y1 y2 r")
      case (Some q)
      then show ?thesis
        using remove_backward_Some[OF Some rl] fwd
        by (auto simp: remove_interval_def Let_def y1_def y2_def r_def)
    next
      case None
      have "(y1, y2) \<notin> set a"
      proof
        assume "(y1, y2) \<in> set a"
        then obtain p where p: "p < length a" "a ! p = (y1, y2)" by (auto simp: in_set_conv_nth)
        show False
        proof (cases "r \<le> p")
          case True
          have "\<forall>k. r \<le> k \<and> k \<le> p \<longrightarrow> fst (a ! k) = y1"
          proof (intro allI impI)
            fix k assume k: "r \<le> k \<and> k \<le> p"
            then have "y1 \<le> fst (a ! k)" using sp p by (simp add: search_post_def)
            moreover have "fst (a ! k) \<le> fst (a ! p)"
              using sorted_by_start_nth[OF assms, of k p] k p by simp
            ultimately show "fst (a ! k) = y1" using p by simp
          qed
          then show False using remove_forward_complete[OF p True] fwd by simp
        next
          case False
          then have pr: "p < r" by simp
          have "\<forall>k. p \<le> k \<and> k < r \<longrightarrow> fst (a ! k) = y1"
          proof (intro allI impI)
            fix k assume k: "p \<le> k \<and> k < r"
            then have "fst (a ! k) \<le> y1" using sp by (simp add: search_post_def)
            moreover have "fst (a ! p) \<le> fst (a ! k)"
              using sorted_by_start_nth[OF assms, of p k] k rl by simp
            ultimately show "fst (a ! k) = y1" using p by simp
          qed
          then show False using remove_backward_complete[OF p(2) pr] None by simp
        qed
      qed
      then show ?thesis using fwd None
        by (auto simp: remove_interval_def Let_def y1_def y2_def r_def)
    qed
  qed
qed

lemma sorted_by_start_insert:
  "sorted_by_start a \<Longrightarrow> sorted_by_start (insert_interval a e)"
  unfolding insert_interval_def Let_def
  by (rule sorted_by_start_splice_in) (auto intro: binarySearch_spec)

lemma mset_insert_interval:
  "mset (insert_interval a e) = add_mset (edge_y1 e, edge_y2 e) (mset a)"
  unfolding insert_interval_def Let_def by (rule mset_splice_in)

lemma sorted_by_start_remove:
  "sorted_by_start a \<Longrightarrow> sorted_by_start (remove_interval a e)"
  using remove_interval_cases[of a e] by (auto simp: sorted_by_start_splice_out)

lemma mset_remove_interval:
  "sorted_by_start a \<Longrightarrow> mset (remove_interval a e) = mset a - {#(edge_y1 e, edge_y2 e)#}"
  using remove_interval_cases[of a e] by (auto simp: mset_splice_out)

text \<open>The reading of "ties in insertion order": a new interval goes behind every interval
  whose start is not larger than its own.\<close>

definition insert_after_ties :: "interval list \<Rightarrow> vedge \<Rightarrow> interval list" where
  "insert_after_ties intervals e =
     takeWhile (\<lambda>iv. fst iv \<le> edge_y1 e) intervals
       @ (edge_y1 e, edge_y2 e) # dropWhile (\<lambda>iv. fst iv \<le> edge_y1 e) intervals"

lemmas edge_simps = edge_x_def edge_y1_def edge_y2_def edge_isLeft_def

text \<open>
  Claim C8, as amended. On an array sorted by start, \<^verbatim>\<open>#insert\<close> adds exactly the interval
  of the edge and \<^verbatim>\<open>#remove\<close> deletes exactly one interval equal to the edge's
  \<open>(y1, y2)\<close> (none when no interval matches; one of them when several do); the array
  stays sorted by start and no interval is merged or changed. Among equal starts the
  order is that of the binary-search anchor, not the insertion order.
\<close>

theorem interval_array_kept_sorted:
  "sorted_by_start intervals \<Longrightarrow>
     sorted_by_start (insert_interval intervals e) \<and>
     mset (insert_interval intervals e) = add_mset (edge_y1 e, edge_y2 e) (mset intervals) \<and>
     sorted_by_start (remove_interval intervals e) \<and>
     mset (remove_interval intervals e) = mset intervals - {#(edge_y1 e, edge_y2 e)#}"
  by (simp add: sorted_by_start_insert mset_insert_interval sorted_by_start_remove
      mset_remove_interval)

theorem interval_array_kept_sorted_witness:
  "sorted_by_start [(0, 1), (0, 1), (2, 3)] \<and>
   sorted_by_start (insert_interval [(0, 1), (0, 1), (2, 3)] (5, 0, 1, False)) \<and>
   mset (insert_interval [(0, 1), (0, 1), (2, 3)] (5, 0, 1, False))
     = {#(0, 1), (0, 1), (0, 1), (2, 3)#} \<and>
   sorted_by_start (remove_interval [(0, 1), (0, 1), (2, 3)] (5, 0, 1, False)) \<and>
   mset (remove_interval [(0, 1), (0, 1), (2, 3)] (5, 0, 1, False)) = {#(0, 1), (2, 3)#}"
proof -
  have h: "sorted_by_start [(0, 1), (0, 1), (2, 3)]"
    by (simp add: sorted_by_start_def)
  show ?thesis
    using h interval_array_kept_sorted [OF h, of "(5, 0, 1, False)"]
    by (simp add: edge_simps)
qed

text \<open>Claim C8 as stated fails on the order of ties: the interval inserted second stands
  before the one inserted first.\<close>

theorem ties_not_in_insertion_order:
  "insert_interval (insert_interval [] (0, 0, 1, True)) (0, 0, 2, True) = [(0, 2), (0, 1)] \<and>
   insert_after_ties (insert_after_ties [] (0, 0, 1, True)) (0, 0, 2, True) = [(0, 1), (0, 2)]"
  by (simp add: insert_interval_def insert_after_ties_def binarySearch_def
      binarySearch_loop.simps splice_in_def edge_simps)

section \<open>\<^verbatim>\<open>#breakEdge\<close>: the uncovered parts of an edge\<close>

text \<open>
  A piece \<^verbatim>\<open>[x, y3, y4]\<close> stands for the points \<open>y3 \<le> y < y4\<close> of the line at \<open>x\<close>, an
  interval \<^verbatim>\<open>[start, end]\<close> covers the points \<open>start \<le> y < end\<close>. Two pieces are
  separated when a gap lies between them, so that neither can be extended into the
  other: pieces that are pairwise separated and whose points are exactly the uncovered
  points are the maximal uncovered segments.
\<close>

definition frag_lo :: "fragment \<Rightarrow> real" where
  "frag_lo f = fst (snd f)"

definition frag_hi :: "fragment \<Rightarrow> real" where
  "frag_hi f = snd (snd f)"

definition frag_covers :: "fragment \<Rightarrow> real \<Rightarrow> bool" where
  "frag_covers f y \<longleftrightarrow> frag_lo f \<le> y \<and> y < frag_hi f"

definition in_fragments :: "fragment list \<Rightarrow> real \<Rightarrow> bool" where
  "in_fragments fs y \<longleftrightarrow> (\<exists>f\<in>set fs. frag_covers f y)"

definition iv_covers :: "interval \<Rightarrow> real \<Rightarrow> bool" where
  "iv_covers iv y \<longleftrightarrow> fst iv \<le> y \<and> y < snd iv"

definition separated :: "fragment \<Rightarrow> fragment \<Rightarrow> bool" where
  "separated f g \<longleftrightarrow> frag_hi f < frag_lo g \<or> frag_hi g < frag_lo f"

definition good_fragments :: "real \<Rightarrow> fragment list \<Rightarrow> bool" where
  "good_fragments x fs \<longleftrightarrow>
     (\<forall>f\<in>set fs. fst f = x \<and> frag_lo f < frag_hi f) \<and> sorted_wrt separated fs"

text \<open>What one pass of the inner loop does to the points of \<^verbatim>\<open>results\<close>: it takes the
  points of the interval away (an early \<^verbatim>\<open>return []\<close> happens only when nothing is
  left).\<close>

definition inner_ok :: "interval \<Rightarrow> fragment list \<Rightarrow> fragment list option \<Rightarrow> bool" where
  "inner_ok iv rs res \<longleftrightarrow>
     (case res of
        None \<Rightarrow> (\<forall>y. in_fragments rs y \<longrightarrow> iv_covers iv y)
      | Some r \<Rightarrow> (\<forall>y. in_fragments r y \<longleftrightarrow> in_fragments rs y \<and> \<not> iv_covers iv y))"

lemma in_fragments_append [simp]:
  "in_fragments (xs @ ys) y \<longleftrightarrow> in_fragments xs y \<or> in_fragments ys y"
  unfolding in_fragments_def by auto

lemma in_fragments_Cons [simp]:
  "in_fragments (f # fs) y \<longleftrightarrow> frag_covers f y \<or> in_fragments fs y"
  unfolding in_fragments_def by auto

lemma in_fragments_Nil [simp]: "\<not> in_fragments [] y"
  unfolding in_fragments_def by simp

lemma in_fragments_split:
  "j < length rs \<Longrightarrow>
   in_fragments rs y \<longleftrightarrow> in_fragments (splice_out rs j) y \<or> frag_covers (rs ! j) y"
proof -
  assume j: "j < length rs"
  have "in_fragments rs y \<longleftrightarrow> in_fragments (take j rs @ rs ! j # drop (Suc j) rs) y"
    using j by (simp only: id_take_nth_drop[symmetric])
  then show ?thesis unfolding splice_out_def by auto
qed

lemma in_fragments_update:
  "j < length rs \<Longrightarrow>
   in_fragments (rs[j := f]) y \<longleftrightarrow> in_fragments (splice_out rs j) y \<or> frag_covers f y"
  unfolding splice_out_def by (auto simp: upd_conv_take_nth_drop)

lemma nth_splice_out:
  "k < length rs - 1 \<Longrightarrow> splice_out rs j ! k = (if k < j then rs ! k else rs ! Suc k)"
  unfolding splice_out_def by (auto simp: nth_append min_def)

lemma length_splice_out [simp]: "j < length rs \<Longrightarrow> length (splice_out rs j) = length rs - 1"
  unfolding splice_out_def by auto

lemma inner_ok_transfer:
  "(\<And>y. \<not> iv_covers iv y \<Longrightarrow> in_fragments rs' y = in_fragments rs y) \<Longrightarrow>
   inner_ok iv rs' res \<Longrightarrow> inner_ok iv rs res"
  unfolding inner_ok_def by (cases res) auto

definition untouched :: "interval \<Rightarrow> fragment \<Rightarrow> bool" where
  "untouched iv f \<longleftrightarrow> (\<forall>y. frag_covers f y \<longrightarrow> \<not> iv_covers iv y)"

lemma breakEdge_inner_pts:
  "jj \<le> length rs \<Longrightarrow> (jj < length rs \<longrightarrow> 0 < j) \<Longrightarrow>
   (\<forall>k<length rs. k < j \<or> jj \<le> k \<longrightarrow> untouched (s, e) (rs ! k)) \<Longrightarrow>
   inner_ok (s, e) rs (breakEdge_inner x s e rs j jj)"
proof (induction x s e rs j jj rule: breakEdge_inner.induct)
  case (1 x s e rs j jj)
  define y3 y4 where "y3 = fst (snd (rs ! j))" and "y4 = snd (snd (rs ! j))"
  have cov: "frag_covers (rs ! j) y \<longleftrightarrow> y3 \<le> y \<and> y < y4" for y
    by (simp add: frag_covers_def frag_lo_def frag_hi_def y3_def y4_def)
  have cov3: "frag_covers (a, b, c) y \<longleftrightarrow> b \<le> y \<and> y < c" for a b c y
    by (simp add: frag_covers_def frag_lo_def frag_hi_def)
  show ?case
  proof (cases "j < jj")
    case False
    have "breakEdge_inner x s e rs j jj = Some rs"
      using False by (subst breakEdge_inner.simps) simp
    moreover have "\<forall>k<length rs. untouched (s, e) (rs ! k)"
      using "1.prems" False by auto
    then have "\<And>y. in_fragments rs y \<Longrightarrow> \<not> iv_covers (s, e) y"
      unfolding in_fragments_def untouched_def by (metis in_set_conv_nth)
    ultimately show ?thesis unfolding inner_ok_def by auto
  next
    case True
    then have jl: "j < length rs" using "1.prems" by simp
    consider (A) "e \<le> y3 \<or> y4 \<le> s"
      | (B) "\<not> (e \<le> y3 \<or> y4 \<le> s)" "s \<le> y3" "e < y4"
      | (C) "\<not> (e \<le> y3 \<or> y4 \<le> s)" "s \<le> y3" "\<not> e < y4" "jj = 1"
      | (D) "\<not> (e \<le> y3 \<or> y4 \<le> s)" "s \<le> y3" "\<not> e < y4" "jj \<noteq> 1"
      | (E) "\<not> (e \<le> y3 \<or> y4 \<le> s)" "\<not> s \<le> y3"
      by blast
    then show ?thesis
    proof cases
      case A
      have r: "breakEdge_inner x s e rs j jj = breakEdge_inner x s e rs (j + 1) jj"
        using True A by (subst breakEdge_inner.simps) (simp add: Let_def y3_def y4_def)
      have u: "untouched (s, e) (rs ! j)"
        using A by (auto simp: untouched_def iv_covers_def cov)
      have "\<forall>k<length rs. k < j + 1 \<or> jj \<le> k \<longrightarrow> untouched (s, e) (rs ! k)"
        using "1.prems"(3) u by (auto simp: less_Suc_eq)
      then have "inner_ok (s, e) rs (breakEdge_inner x s e rs (j + 1) jj)"
        using "1.IH"(1)[OF True y3_def y4_def A] "1.prems" by simp
      then show ?thesis using r by simp
    next
      case B
      define rs' where "rs' = rs[j := (fst (rs ! j), e, y4)]"
      have r: "breakEdge_inner x s e rs j jj = breakEdge_inner x s e rs' (j + 1) jj"
        using True B by (subst breakEdge_inner.simps) (simp add: Let_def y3_def y4_def rs'_def)
      have u: "untouched (s, e) (fst (rs ! j), e, y4)"
        by (auto simp: untouched_def iv_covers_def cov3)
      have "\<forall>k<length rs'. k < j + 1 \<or> jj \<le> k \<longrightarrow> untouched (s, e) (rs' ! k)"
        using "1.prems"(3) u jl by (auto simp: less_Suc_eq rs'_def nth_list_update)
      then have ok: "inner_ok (s, e) rs' (breakEdge_inner x s e rs' (j + 1) jj)"
        using "1.IH"(2)[OF True y3_def y4_def B(1) _ B(3)] B(2) "1.prems" by (simp add: rs'_def)
      have "\<And>y. \<not> iv_covers (s, e) y \<Longrightarrow> in_fragments rs' y = in_fragments rs y"
        using B by (auto simp: rs'_def in_fragments_update[OF jl] in_fragments_split[OF jl]
            cov cov3 iv_covers_def)
      then show ?thesis using inner_ok_transfer[OF _ ok] r by simp
    next
      case C
      have r: "breakEdge_inner x s e rs j jj = None"
        using True C by (subst breakEdge_inner.simps) (simp add: Let_def y3_def y4_def)
      have "j = 0" using True C by simp
      then have "length rs = 1" using "1.prems" C by auto
      then have "rs = [rs ! j]" using \<open>j = 0\<close> by (cases rs) auto
      then have "in_fragments rs y \<longleftrightarrow> frag_covers (rs ! j) y" for y
        by (metis in_fragments_Cons in_fragments_Nil)
      then have "\<And>y. in_fragments rs y \<Longrightarrow> iv_covers (s, e) y"
        using C by (auto simp: cov iv_covers_def)
      then show ?thesis using r unfolding inner_ok_def by simp
    next
      case D
      define rs' where "rs' = splice_out rs j"
      have r: "breakEdge_inner x s e rs j jj = breakEdge_inner x s e rs' j (jj - 1)"
        using True D by (subst breakEdge_inner.simps) (simp add: Let_def y3_def y4_def rs'_def)
      have len: "length rs' = length rs - 1" using jl by (simp add: rs'_def)
      have "\<forall>k<length rs'. k < j \<or> jj - 1 \<le> k \<longrightarrow> untouched (s, e) (rs' ! k)"
      proof (intro allI impI)
        fix k assume k: "k < length rs'" and c: "k < j \<or> jj - 1 \<le> k"
        have n: "rs' ! k = (if k < j then rs ! k else rs ! Suc k)"
          using k len by (simp add: rs'_def nth_splice_out)
        show "untouched (s, e) (rs' ! k)"
        proof (cases "k < j")
          case True
          then show ?thesis using n "1.prems"(3) jl by simp
        next
          case False
          then have "jj \<le> Suc k" "Suc k < length rs" using c k len True by auto
          then show ?thesis using n False "1.prems"(3) by simp
        qed
      qed
      moreover have "jj - 1 \<le> length rs'" "jj - 1 < length rs' \<longrightarrow> 0 < j"
        using "1.prems" len True by auto
      ultimately have ok: "inner_ok (s, e) rs' (breakEdge_inner x s e rs' j (jj - 1))"
        using "1.IH"(3)[OF True y3_def y4_def D(1) _ D(3) D(4)] D(2) by (simp add: rs'_def)
      have "\<And>y. \<not> iv_covers (s, e) y \<Longrightarrow> in_fragments rs' y = in_fragments rs y"
        using D by (auto simp: rs'_def in_fragments_split[OF jl] cov iv_covers_def)
      then show ?thesis using inner_ok_transfer[OF _ ok] r by simp
    next
      case E
      define rs1 where "rs1 = rs[j := (fst (rs ! j), y3, s)]"
      define rs2 where "rs2 = (if y4 > e then rs1 @ [(x, e, y4)] else rs1)"
      have r: "breakEdge_inner x s e rs j jj = breakEdge_inner x s e rs2 (j + 1) jj"
        using True E
        by (subst breakEdge_inner.simps) (simp add: Let_def y3_def y4_def rs1_def rs2_def)
      have u1: "untouched (s, e) (fst (rs ! j), y3, s)" "untouched (s, e) (x, e, y4)"
        by (auto simp: untouched_def iv_covers_def cov3)
      have "\<forall>k<length rs2. k < j + 1 \<or> jj \<le> k \<longrightarrow> untouched (s, e) (rs2 ! k)"
        using "1.prems"(3) u1 jl
        by (auto simp: less_Suc_eq rs1_def rs2_def nth_list_update nth_append)
      moreover have "jj \<le> length rs2" using "1.prems" by (simp add: rs1_def rs2_def)
      ultimately have ok: "inner_ok (s, e) rs2 (breakEdge_inner x s e rs2 (j + 1) jj)"
        using "1.IH"(4)[OF True y3_def y4_def E(1) _ rs1_def rs2_def] E(2)
        by simp
      have "\<And>y. \<not> iv_covers (s, e) y \<Longrightarrow> in_fragments rs2 y = in_fragments rs y"
        using E by (auto simp: rs2_def rs1_def in_fragments_update[OF jl]
            in_fragments_split[OF jl] cov cov3 iv_covers_def)
      then show ?thesis using inner_ok_transfer[OF _ ok] r by simp
    qed
  qed
qed


lemma separated_sym: "separated f g \<Longrightarrow> separated g f"
  unfolding separated_def by auto

lemma separated_inside:
  "separated g h \<Longrightarrow> frag_lo g \<le> frag_lo f \<Longrightarrow> frag_hi f \<le> frag_hi g \<Longrightarrow> separated f h"
  unfolding separated_def by auto

lemma good_fragments_mid:
  "good_fragments x (A @ g # B) \<longleftrightarrow>
     good_fragments x (A @ B) \<and> fst g = x \<and> frag_lo g < frag_hi g \<and>
     (\<forall>h\<in>set A \<union> set B. separated g h)"
  unfolding good_fragments_def
  by (auto simp: sorted_wrt_append dest: separated_sym)

lemma good_fragments_snoc:
  "good_fragments x (A @ [g]) \<longleftrightarrow>
     good_fragments x A \<and> fst g = x \<and> frag_lo g < frag_hi g \<and> (\<forall>h\<in>set A. separated g h)"
  using good_fragments_mid[of x A g "[]"] by simp

lemma good_replace:
  assumes "good_fragments x rs" "j < length rs"
    and "frag_lo (rs ! j) \<le> frag_lo f" "frag_hi f \<le> frag_hi (rs ! j)"
    and "fst f = x" "frag_lo f < frag_hi f"
  shows "good_fragments x (rs[j := f])"
proof -
  have "good_fragments x (take j rs @ rs ! j # drop (Suc j) rs)"
    using assms(1,2) by (simp only: id_take_nth_drop[symmetric])
  then have "good_fragments x (take j rs @ f # drop (Suc j) rs)"
    unfolding good_fragments_mid using assms(3-) by (auto intro: separated_inside)
  then show ?thesis using assms(2) by (simp add: upd_conv_take_nth_drop)
qed

lemma good_splice_out:
  assumes "good_fragments x rs" "j < length rs"
  shows "good_fragments x (splice_out rs j)"
proof -
  have "good_fragments x (take j rs @ rs ! j # drop (Suc j) rs)"
    using assms(1,2) by (simp only: id_take_nth_drop[symmetric])
  then show ?thesis unfolding good_fragments_mid splice_out_def by simp
qed

lemma good_split:
  assumes "good_fragments x rs" "j < length rs"
    and "frag_lo f1 = frag_lo (rs ! j)" "frag_hi f1 < frag_lo f2" "frag_hi f2 = frag_hi (rs ! j)"
    and "fst f1 = x" "frag_lo f1 < frag_hi f1" "fst f2 = x" "frag_lo f2 < frag_hi f2"
  shows "good_fragments x (rs[j := f1] @ [f2])"
proof -
  have g: "good_fragments x (take j rs @ rs ! j # drop (Suc j) rs)"
    using assms(1,2) by (simp only: id_take_nth_drop[symmetric])
  have in1: "frag_lo (rs ! j) \<le> frag_lo f1" "frag_hi f1 \<le> frag_hi (rs ! j)"
    and in2: "frag_lo (rs ! j) \<le> frag_lo f2" "frag_hi f2 \<le> frag_hi (rs ! j)"
    using assms(3-) by auto
  have 1: "good_fragments x (rs[j := f1])"
    using good_replace[OF assms(1,2) in1 assms(6,7)] .
  have "\<forall>h\<in>set (take j rs) \<union> set (drop (Suc j) rs). separated f2 h"
    using g in2 unfolding good_fragments_mid by (auto intro: separated_inside)
  moreover have "separated f2 f1" using assms(4) unfolding separated_def by simp
  ultimately have "\<forall>h\<in>set (rs[j := f1]). separated f2 h"
    using assms(2) by (auto simp: upd_conv_take_nth_drop)
  then show ?thesis unfolding good_fragments_snoc using 1 assms(8,9) by simp
qed

lemma breakEdge_inner_good:
  "s < e \<Longrightarrow> jj \<le> length rs \<Longrightarrow> good_fragments x rs \<Longrightarrow>
   breakEdge_inner x s e rs j jj = Some res \<Longrightarrow> good_fragments x res"
proof (induction x s e rs j jj rule: breakEdge_inner.induct)
  case (1 x s e rs j jj)
  define y3 y4 where "y3 = fst (snd (rs ! j))" and "y4 = snd (snd (rs ! j))"
  have lohi: "frag_lo (rs ! j) = y3" "frag_hi (rs ! j) = y4"
    by (simp_all add: frag_lo_def frag_hi_def y3_def y4_def)
  have lohi3: "frag_lo (a, b, c) = b" "frag_hi (a, b, c) = c" for a b c :: real
    by (simp_all add: frag_lo_def frag_hi_def)
  show ?case
  proof (cases "j < jj")
    case False
    then have "breakEdge_inner x s e rs j jj = Some rs"
      by (subst breakEdge_inner.simps) simp
    then show ?thesis using "1.prems" by simp
  next
    case True
    then have jl: "j < length rs" using "1.prems" by simp
    have fx: "fst (rs ! j) = x" "y3 < y4"
      using "1.prems"(3) nth_mem[OF jl] lohi unfolding good_fragments_def by auto
    consider (A) "e \<le> y3 \<or> y4 \<le> s"
      | (B) "\<not> (e \<le> y3 \<or> y4 \<le> s)" "s \<le> y3" "e < y4"
      | (C) "\<not> (e \<le> y3 \<or> y4 \<le> s)" "s \<le> y3" "\<not> e < y4" "jj = 1"
      | (D) "\<not> (e \<le> y3 \<or> y4 \<le> s)" "s \<le> y3" "\<not> e < y4" "jj \<noteq> 1"
      | (E) "\<not> (e \<le> y3 \<or> y4 \<le> s)" "\<not> s \<le> y3"
      by blast
    then show ?thesis
    proof cases
      case A
      have r: "breakEdge_inner x s e rs j jj = breakEdge_inner x s e rs (j + 1) jj"
        using True A by (subst breakEdge_inner.simps) (simp add: Let_def y3_def y4_def)
      show ?thesis
        using "1.IH"(1)[OF True y3_def y4_def A "1.prems"(1,2,3)] "1.prems"(4) r by simp
    next
      case B
      define rs' where "rs' = rs[j := (fst (rs ! j), e, y4)]"
      have r: "breakEdge_inner x s e rs j jj = breakEdge_inner x s e rs' (j + 1) jj"
        using True B by (subst breakEdge_inner.simps) (simp add: Let_def y3_def y4_def rs'_def)
      have g: "good_fragments x rs'"
        unfolding rs'_def using B fx
        by (intro good_replace[OF "1.prems"(3) jl]) (simp_all add: lohi lohi3)
      have l: "jj \<le> length rs'" using "1.prems" by (simp add: rs'_def)
      have b2: "start \<le> y3" if "start = s" for start using B(2) that by simp
      show ?thesis
        using "1.IH"(2)[OF True y3_def y4_def B(1) _ B(3) "1.prems"(1)] B(2) l g
          "1.prems"(4) r
        by (simp add: rs'_def)
    next
      case C
      have "breakEdge_inner x s e rs j jj = None"
        using True C by (subst breakEdge_inner.simps) (simp add: Let_def y3_def y4_def)
      then show ?thesis using "1.prems" by simp
    next
      case D
      define rs' where "rs' = splice_out rs j"
      have r: "breakEdge_inner x s e rs j jj = breakEdge_inner x s e rs' j (jj - 1)"
        using True D by (subst breakEdge_inner.simps) (simp add: Let_def y3_def y4_def rs'_def)
      have g: "good_fragments x rs'"
        unfolding rs'_def by (rule good_splice_out[OF "1.prems"(3) jl])
      have l: "jj - 1 \<le> length rs'" using "1.prems" jl by (simp add: rs'_def)
      show ?thesis
        using "1.IH"(3)[OF True y3_def y4_def D(1) _ D(3) D(4) "1.prems"(1)] D(2) l g
          "1.prems"(4) r
        by (simp add: rs'_def)
    next
      case E
      define rs1 where "rs1 = rs[j := (fst (rs ! j), y3, s)]"
      define rs2 where "rs2 = (if y4 > e then rs1 @ [(x, e, y4)] else rs1)"
      have r: "breakEdge_inner x s e rs j jj = breakEdge_inner x s e rs2 (j + 1) jj"
        using True E
        by (subst breakEdge_inner.simps) (simp add: Let_def y3_def y4_def rs1_def rs2_def)
      have g: "good_fragments x rs2"
      proof (cases "y4 > e")
        case True
        have "good_fragments x (rs[j := (fst (rs ! j), y3, s)] @ [(x, e, y4)])"
          using E fx True "1.prems"(1)
          by (intro good_split[OF "1.prems"(3) jl]) (simp_all add: lohi lohi3)
        then show ?thesis using True by (simp add: rs2_def rs1_def)
      next
        case False
        have "good_fragments x (rs[j := (fst (rs ! j), y3, s)])"
          using E fx False
          by (intro good_replace[OF "1.prems"(3) jl]) (simp_all add: lohi lohi3)
        then show ?thesis using False by (simp add: rs2_def rs1_def)
      qed
      have l: "jj \<le> length rs2" using "1.prems" by (simp add: rs1_def rs2_def)
      show ?thesis
        using "1.IH"(4)[OF True y3_def y4_def E(1) _ rs1_def rs2_def "1.prems"(1) l g] E(2)
          "1.prems"(4) r
        by simp
    qed
  qed
qed


lemma breakEdge_outer_pts:
  "in_fragments (breakEdge_outer x ivs rs) y \<longleftrightarrow>
     in_fragments rs y \<and> \<not> (\<exists>iv\<in>set ivs. iv_covers iv y)"
proof (induction ivs arbitrary: rs)
  case Nil
  then show ?case by simp
next
  case (Cons iv ivs)
  have ok: "inner_ok (fst iv, snd iv) rs (breakEdge_inner x (fst iv) (snd iv) rs 0 (length rs))"
    by (rule breakEdge_inner_pts) auto
  show ?case
  proof (cases "breakEdge_inner x (fst iv) (snd iv) rs 0 (length rs)")
    case None
    then show ?thesis using ok by (auto simp: inner_ok_def)
  next
    case (Some r)
    then show ?thesis using ok Cons.IH[of r] by (auto simp: inner_ok_def)
  qed
qed

lemma good_fragments_Nil: "good_fragments x []"
  by (simp add: good_fragments_def)

lemma breakEdge_outer_good:
  "\<forall>iv\<in>set ivs. fst iv < snd iv \<Longrightarrow> good_fragments x rs \<Longrightarrow>
   good_fragments x (breakEdge_outer x ivs rs)"
proof (induction ivs arbitrary: rs)
  case Nil
  then show ?case by simp
next
  case (Cons iv ivs)
  show ?case
  proof (cases "breakEdge_inner x (fst iv) (snd iv) rs 0 (length rs)")
    case None
    then show ?thesis by (simp add: good_fragments_Nil)
  next
    case (Some r)
    have "good_fragments x r"
      using breakEdge_inner_good[OF _ _ Cons.prems(2) Some] Cons.prems(1) by simp
    then show ?thesis using Some Cons.IH[of r] Cons.prems(1) by simp
  qed
qed

lemma breakEdge_pts:
  assumes "sorted_by_start intervals"
  shows "in_fragments (breakEdge intervals e) y \<longleftrightarrow>
     edge_y1 e \<le> y \<and> y < edge_y2 e \<and>
     \<not> (\<exists>iv\<in>set intervals. fst iv < edge_y2 e \<and> iv_covers iv y)"
proof -
  define r where "r = binarySearch intervals (edge_y2 e)"
  have sp: "search_post intervals (edge_y2 e) r"
    unfolding r_def by (rule binarySearch_spec[OF assms])
  have late: "edge_y2 e \<le> fst iv" if "iv \<in> set (drop r intervals)" for iv
  proof -
    from that obtain i where "i < length (drop r intervals)" "drop r intervals ! i = iv"
      by (auto simp: in_set_conv_nth)
    then show ?thesis using sp unfolding search_post_def by auto
  qed
  have early: "iv \<in> set (take r intervals)" if "iv \<in> set intervals" "fst iv < edge_y2 e" for iv
  proof -
    have "iv \<in> set (take r intervals) \<union> set (drop r intervals)"
      using that(1) by (metis append_take_drop_id set_append)
    then show ?thesis using late[of iv] that(2) by auto
  qed
  have sub: "set (take r intervals) \<subseteq> set intervals" by (rule set_take_subset)
  have "(\<exists>iv\<in>set (take r intervals). iv_covers iv y) \<longleftrightarrow>
        (\<exists>iv\<in>set intervals. fst iv < edge_y2 e \<and> iv_covers iv y)" if "y < edge_y2 e"
  proof
    assume "\<exists>iv\<in>set (take r intervals). iv_covers iv y"
    then obtain iv where iv: "iv \<in> set (take r intervals)" "iv_covers iv y" by blast
    then have "fst iv < edge_y2 e" using that by (simp add: iv_covers_def)
    then show "\<exists>iv\<in>set intervals. fst iv < edge_y2 e \<and> iv_covers iv y"
      using iv sub by blast
  next
    assume "\<exists>iv\<in>set intervals. fst iv < edge_y2 e \<and> iv_covers iv y"
    then show "\<exists>iv\<in>set (take r intervals). iv_covers iv y" using early by blast
  qed
  then show ?thesis
    unfolding breakEdge_def Let_def r_def[symmetric] breakEdge_outer_pts
    by (auto simp: frag_covers_def frag_lo_def frag_hi_def)
qed

lemma breakEdge_good:
  assumes "\<forall>iv\<in>set intervals. fst iv < snd iv" "edge_y1 e < edge_y2 e"
  shows "good_fragments (edge_x e) (breakEdge intervals e)"
proof -
  have "good_fragments (edge_x e) [(edge_x e, edge_y1 e, edge_y2 e)]"
    using assms(2) by (simp add: good_fragments_def frag_lo_def frag_hi_def)
  moreover have "\<forall>iv\<in>set (take (binarySearch intervals (edge_y2 e)) intervals). fst iv < snd iv"
    using assms(1) by (meson in_set_takeD)
  ultimately show ?thesis
    unfolding breakEdge_def Let_def by (intro breakEdge_outer_good)
qed

text \<open>
  Claim C3. For an interval array sorted by start, the pieces that \<^verbatim>\<open>#breakEdge\<close>
  returns for the edge \<open>(x, y1, y2)\<close> hold exactly the points of \<open>[y1, y2)\<close> that no
  interval with start below \<open>y2\<close> covers. When the edge and the intervals are not
  degenerate (\<open>y1 < y2\<close>, as the data model has it), every piece lies at \<open>x\<close>, is not
  empty and is separated from every other piece by a covered gap, so the pieces are the
  maximal uncovered segments; there may be none or several.
\<close>

theorem breakEdge_uncovered_segments:
  "sorted_by_start intervals \<Longrightarrow>
   (\<forall>y. in_fragments (breakEdge intervals e) y \<longleftrightarrow>
      edge_y1 e \<le> y \<and> y < edge_y2 e \<and>
      \<not> (\<exists>iv\<in>set intervals. fst iv < edge_y2 e \<and> iv_covers iv y)) \<and>
   ((\<forall>iv\<in>set intervals. fst iv < snd iv) \<and> edge_y1 e < edge_y2 e \<longrightarrow>
      (\<forall>f\<in>set (breakEdge intervals e). fst f = edge_x e \<and> frag_lo f < frag_hi f) \<and>
      sorted_wrt separated (breakEdge intervals e))"
  using breakEdge_pts[of intervals e] breakEdge_good[of intervals e]
  unfolding good_fragments_def by blast

lemma breakEdge_eval_split:
  "breakEdge [(1, 2), (3, 4)] (7, 0, 10, True) = [(7, 0, 1), (7, 2, 3), (7, 4, 10)]"
  by (simp add: breakEdge_def binarySearch_def binarySearch_loop.simps edge_simps
      breakEdge_inner.simps splice_out_def Let_def)

lemma breakEdge_eval_covered:
  "breakEdge [(0, 5), (1, 2)] (7, 1, 3, False) = []"
  by (simp add: breakEdge_def binarySearch_def binarySearch_loop.simps edge_simps
      breakEdge_inner.simps splice_out_def Let_def)

theorem breakEdge_uncovered_segments_witness:
  "sorted_by_start [(1, 2), (3, 4)] \<and>
   breakEdge [(1, 2), (3, 4)] (7, 0, 10, True) = [(7, 0, 1), (7, 2, 3), (7, 4, 10)] \<and>
   in_fragments (breakEdge [(1, 2), (3, 4)] (7, 0, 10, True)) (5 / 2) \<and>
   \<not> in_fragments (breakEdge [(1, 2), (3, 4)] (7, 0, 10, True)) (3 / 2) \<and>
   sorted_wrt separated (breakEdge [(1, 2), (3, 4)] (7, 0, 10, True)) \<and>
   breakEdge [(0, 5), (1, 2)] (7, 1, 3, False) = []"
proof -
  have h: "sorted_by_start [(1, 2), (3, 4)]"
    by (simp add: sorted_by_start_def)
  have n: "(\<forall>iv\<in>set ([(1, 2), (3, 4)] :: interval list). fst iv < snd iv) \<and>
      edge_y1 (7, 0, 10, True) < edge_y2 (7, 0, 10, True)"
    by (simp add: edge_simps)
  note t = breakEdge_uncovered_segments [OF h, of "(7, 0, 10, True)"]
  have 1: "in_fragments (breakEdge [(1, 2), (3, 4)] (7, 0, 10, True)) (5 / 2)"
    using t by (simp add: edge_simps iv_covers_def)
  have 2: "\<not> in_fragments (breakEdge [(1, 2), (3, 4)] (7, 0, 10, True)) (3 / 2)"
    using t by (simp add: edge_simps iv_covers_def)
  have 3: "sorted_wrt separated (breakEdge [(1, 2), (3, 4)] (7, 0, 10, True))"
    using t n by blast
  show ?thesis
    using h 1 2 3 breakEdge_eval_split breakEdge_eval_covered by simp
qed

section \<open>The constructor\<close>

subsection \<open>Data of the constructor\<close>

text \<open>An input rectangle \<^verbatim>\<open>{x, y, width, height}\<close>, a box of a text line
  \<^verbatim>\<open>{x1, y1, x2}\<close>, a group of such boxes \<^verbatim>\<open>{boxes, minY1}\<close>, the bounding box
  \<^verbatim>\<open>{x, y, width, height, lastPoint}\<close>, a line rectangle \<^verbatim>\<open>{x1, x2, y1, y2}\<close> and the
  private fields of an \<^verbatim>\<open>Outliner\<close>.\<close>

record box =
  box_x :: real
  box_y :: real
  box_width :: real
  box_height :: real

record line_box =
  lb_x1 :: real
  lb_y1 :: real
  lb_x2 :: real

record line_group =
  lg_boxes :: "line_box list"
  lg_minY1 :: real

record bounding_box =
  bb_x :: real
  bb_y :: real
  bb_width :: real
  bb_height :: real
  bb_lastPoint :: "real \<times> real"

record line_rect =
  lr_x1 :: real
  lr_x2 :: real
  lr_y1 :: real
  lr_y2 :: real

record outliner =
  o_box :: bounding_box
  o_verticalEdges :: "vedge list"
  o_intervals :: "interval list"
  o_lineRects :: "line_rect list"

text \<open>
  What a call does: it throws, it returns a value, or it returns an object whose
  coordinates were divided by a zero width or height of the bounding box, which in
  JavaScript are \<^verbatim>\<open>NaN\<close> or \<^verbatim>\<open>\<plusminus>Infinity\<close> and are no numbers of the model.
\<close>

datatype js_error = TypeError

datatype 'a outcome = Threw js_error | ReturnedNonFinite | Returned 'a

text \<open>
  The object \<^verbatim>\<open>lineByBaseHeight\<close>: its properties in insertion order, each key being the
  number \<^verbatim>\<open>y2\<close> (two numbers of the model have the same key string exactly when they are
  equal). Assigning to a key that exists keeps its place, a new key goes last, which is
  what \<^const>\<open>AList.update\<close> does.
\<close>

type_synonym line_object = "(real \<times> line_group) list"

subsection \<open>Rounding and the bounding rectangle\<close>

definition EPSILON :: real where
  "EPSILON = 1 / 10 ^ 4"

text \<open>The state of the loop over \<^verbatim>\<open>boxes\<close>. \<open>None\<close> is the initial \<^verbatim>\<open>Infinity\<close> (for a
  minimum) or \<^verbatim>\<open>-Infinity\<close> (for a maximum).\<close>

record loop_state =
  ls_verticalEdges :: "vedge list"
  ls_minX :: "real option"
  ls_maxX :: "real option"
  ls_minY :: "real option"
  ls_maxY :: "real option"
  ls_lineByBaseHeight :: line_object

definition math_min :: "real option \<Rightarrow> real \<Rightarrow> real option" where
  "math_min acc v = (case acc of None \<Rightarrow> Some v | Some m \<Rightarrow> Some (min m v))"

definition math_max :: "real option \<Rightarrow> real \<Rightarrow> real option" where
  "math_max acc v = (case acc of None \<Rightarrow> Some v | Some m \<Rightarrow> Some (max m v))"

definition round_x1 :: "real \<Rightarrow> box \<Rightarrow> real" where
  "round_x1 borderWidth b = of_int \<lfloor>(box_x b - borderWidth) / EPSILON\<rfloor> * EPSILON"

definition round_x2 :: "real \<Rightarrow> box \<Rightarrow> real" where
  "round_x2 borderWidth b =
     of_int \<lceil>(box_x b + box_width b + borderWidth) / EPSILON\<rceil> * EPSILON"

definition round_y1 :: "real \<Rightarrow> box \<Rightarrow> real" where
  "round_y1 borderWidth b = of_int \<lfloor>(box_y b - borderWidth) / EPSILON\<rfloor> * EPSILON"

definition round_y2 :: "real \<Rightarrow> box \<Rightarrow> real" where
  "round_y2 borderWidth b =
     of_int \<lceil>(box_y b + box_height b + borderWidth) / EPSILON\<rceil> * EPSILON"

text \<open>
  One turn of \<^verbatim>\<open>for (const { x, y, width, height } of boxes)\<close>. A group that is created
  has \<^verbatim>\<open>minY1: Infinity\<close> and gets its first box in the same turn, so that its
  \<^verbatim>\<open>minY1\<close> is \<^verbatim>\<open>Math.min(Infinity, y1) = y1\<close> when the turn ends.
\<close>

definition add_box :: "real \<Rightarrow> box \<Rightarrow> loop_state \<Rightarrow> loop_state" where
  "add_box borderWidth b st =
     (let x1 = round_x1 borderWidth b;
          x2 = round_x2 borderWidth b;
          y1 = round_y1 borderWidth b;
          y2 = round_y2 borderWidth b;
          left = (x1, y1, y2, True);
          right = (x2, y1, y2, False);
          lineByBaseHeight = ls_lineByBaseHeight st;
          group =
            (case map_of lineByBaseHeight y2 of
               None \<Rightarrow> \<lparr>lg_boxes = [\<lparr>lb_x1 = x1, lb_y1 = y1, lb_x2 = x2\<rparr>], lg_minY1 = y1\<rparr>
             | Some prev \<Rightarrow>
                 \<lparr>lg_boxes = lg_boxes prev @ [\<lparr>lb_x1 = x1, lb_y1 = y1, lb_x2 = x2\<rparr>],
                  lg_minY1 = min (lg_minY1 prev) y1\<rparr>)
      in \<lparr>ls_verticalEdges = ls_verticalEdges st @ [left, right],
          ls_minX = math_min (ls_minX st) x1,
          ls_maxX = math_max (ls_maxX st) x2,
          ls_minY = math_min (ls_minY st) y1,
          ls_maxY = math_max (ls_maxY st) y2,
          ls_lineByBaseHeight = AList.update y2 group lineByBaseHeight\<rparr>)"

definition initial_state :: loop_state where
  "initial_state =
     \<lparr>ls_verticalEdges = [], ls_minX = None, ls_maxX = None, ls_minY = None, ls_maxY = None,
      ls_lineByBaseHeight = []\<rparr>"

definition read_boxes :: "real \<Rightarrow> box list \<Rightarrow> loop_state" where
  "read_boxes borderWidth boxes = fold (add_box borderWidth) boxes initial_state"

text \<open>\<^verbatim>\<open>array.at(-1)\<close> and \<^verbatim>\<open>array.at(-2)\<close>; \<open>None\<close> is \<^verbatim>\<open>undefined\<close>.\<close>

definition at_last :: "'a list \<Rightarrow> 'a option" where
  "at_last xs = (if length xs \<ge> 1 then Some (xs ! (length xs - 1)) else None)"

definition at_before_last :: "'a list \<Rightarrow> 'a option" where
  "at_before_last xs = (if length xs \<ge> 2 then Some (xs ! (length xs - 2)) else None)"

subsection \<open>Keys of an object\<close>

text \<open>
  \<^verbatim>\<open>Object.keys\<close> and \<^verbatim>\<open>Object.entries\<close> list the keys that are array indices (the
  integers from 0 to \<open>2^32 - 2\<close>) first, in ascending order, and then the other keys in
  insertion order.
\<close>

definition is_array_index :: "real \<Rightarrow> bool" where
  "is_array_index k \<longleftrightarrow> k = of_int \<lfloor>k\<rfloor> \<and> 0 \<le> k \<and> k < 4294967295"

definition object_entries :: "(real \<times> 'a) list \<Rightarrow> (real \<times> 'a) list" where
  "object_entries obj =
     sort_key fst (filter (\<lambda>p. is_array_index (fst p)) obj)
       @ filter (\<lambda>p. \<not> is_array_index (fst p)) obj"

definition object_keys :: "(real \<times> 'a) list \<Rightarrow> real list" where
  "object_keys obj = map fst (object_entries obj)"

text \<open>
  The key string of a number: \<^verbatim>\<open>Number.prototype.toString\<close> for a multiple of
  \<open>10^-4\<close> below \<open>10^21\<close> in size, which every \<^verbatim>\<open>y2\<close> of the model is: the decimal digits
  of the integer part, and after a point the up to four digits of the fraction, without
  zeros at the end.
\<close>

fun digits_of :: "nat \<Rightarrow> nat list" where
  "digits_of n = (if n < 10 then [n] else digits_of (n div 10) @ [n mod 10])"

declare digits_of.simps [simp del]

definition digit_char :: "nat \<Rightarrow> char" where
  "digit_char d = ''0123456789'' ! d"

fun strip_zeros :: "nat list \<Rightarrow> nat list" where
  "strip_zeros [] = []"
| "strip_zeros (d # ds) = (if strip_zeros ds = [] \<and> d = 0 then [] else d # strip_zeros ds)"

definition fraction_digits :: "nat \<Rightarrow> nat list" where
  "fraction_digits r = strip_zeros [r div 1000, (r div 100) mod 10, (r div 10) mod 10, r mod 10]"

definition number_to_string :: "real \<Rightarrow> string" where
  "number_to_string v =
     (let k = nat \<lfloor>\<bar>v\<bar> * 10 ^ 4\<rfloor>;
          whole = map digit_char (digits_of (k div 10 ^ 4));
          frac = map digit_char (fraction_digits (k mod 10 ^ 4))
      in (if v < 0 then ''-'' else '''') @ whole @ (if frac = [] then [] else ''.'' @ frac))"

text \<open>\<^verbatim>\<open>a >= b\<close> on two strings compares them by their code units, a proper prefix
  being smaller.\<close>

fun string_less :: "string \<Rightarrow> string \<Rightarrow> bool" where
  "string_less [] [] = False"
| "string_less [] (d # ds) = True"
| "string_less (c # cs) [] = False"
| "string_less (c # cs) (d # ds) =
     ((of_char c :: nat) < of_char d \<or> (c = d \<and> string_less cs ds))"

definition string_ge :: "string \<Rightarrow> string \<Rightarrow> bool" where
  "string_ge a b \<longleftrightarrow> \<not> string_less a b"

subsection \<open>Merging the base lines and cutting them at gaps\<close>

text \<open>
  The loop \<^verbatim>\<open>for (let i = 1; i < sortedYValues.length; i++)\<close>: \<open>prevY2\<close> is
  \<^verbatim>\<open>sortedYValues[i - 1]\<close> and the list holds the keys from index \<^verbatim>\<open>i\<close> on. Both keys
  are strings, so \<^verbatim>\<open>currentY2 >= prevY2\<close> compares strings. Reading \<^verbatim>\<open>minY1\<close> of a
  missing property throws.
\<close>

fun merge_loop ::
  "line_object \<Rightarrow> real \<Rightarrow> real list \<Rightarrow> line_object \<Rightarrow> js_error + line_object" where
  "merge_loop lineByBaseHeight prevY2 [] newLineByBaseHeight = Inr newLineByBaseHeight"
| "merge_loop lineByBaseHeight prevY2 (currentY2 # rest) newLineByBaseHeight =
     (case map_of newLineByBaseHeight prevY2 of
        None \<Rightarrow> Inl TypeError
      | Some prevObj \<Rightarrow>
         (case map_of lineByBaseHeight currentY2 of
            None \<Rightarrow> Inl TypeError
          | Some currentObj \<Rightarrow>
              if string_ge (number_to_string currentY2) (number_to_string prevY2)
                 \<and> lg_minY1 prevObj \<ge> lg_minY1 currentObj
              then merge_loop lineByBaseHeight currentY2 rest
                     (AList.delete prevY2
                        (AList.update currentY2
                           \<lparr>lg_boxes = lg_boxes prevObj @ lg_boxes currentObj,
                            lg_minY1 = min (lg_minY1 prevObj) (lg_minY1 currentObj)\<rparr>
                           newLineByBaseHeight))
              else merge_loop lineByBaseHeight currentY2 rest
                     (AList.update currentY2 currentObj newLineByBaseHeight)))"

definition merge_lines :: "line_object \<Rightarrow> js_error + line_object" where
  "merge_lines lineByBaseHeight =
     (case sort_key (\<lambda>k. k) (object_keys lineByBaseHeight) of
        [] \<Rightarrow> Inr lineByBaseHeight
      | firstValue # rest \<Rightarrow>
         (case map_of lineByBaseHeight firstValue of
            None \<Rightarrow> Inl TypeError
          | Some obj \<Rightarrow> merge_loop lineByBaseHeight firstValue rest [(firstValue, obj)]))"

text \<open>
  The loop over \<^verbatim>\<open>boxesSorted\<close> from index 1: \<^verbatim>\<open>partitionedBoxes\<close> is the list
  \<open>done\<close> followed by \<open>lastBox\<close>, its last element.
\<close>

fun partition_loop :: "real \<Rightarrow> line_box list \<Rightarrow> line_box \<Rightarrow> line_box list \<Rightarrow> line_box list" where
  "partition_loop maxSpaceSize done lastBox [] = done @ [lastBox]"
| "partition_loop maxSpaceSize done lastBox (currentBox # rest) =
     (if lb_x2 currentBox - lb_x2 lastBox > maxSpaceSize then
        partition_loop maxSpaceSize (done @ [lastBox]) currentBox rest
      else
        partition_loop maxSpaceSize done
          \<lparr>lb_x1 = min (lb_x1 currentBox) (lb_x1 lastBox),
           lb_y1 = min (lb_y1 currentBox) (lb_y1 lastBox),
           lb_x2 = max (lb_x2 currentBox) (lb_x2 lastBox)\<rparr> rest)"

text \<open>The function mapped over \<^verbatim>\<open>Object.entries(lineByBaseHeight)\<close>. A group without a
  box would give \<^verbatim>\<open>[undefined]\<close>, whose fields are read when the rectangles are made.\<close>

definition partition_line :: "real \<times> line_group \<Rightarrow> js_error + (real \<times> line_box list)" where
  "partition_line entry =
     (let y2 = fst entry;
          obj = snd entry;
          boxesSorted = sort_key lb_x1 (lg_boxes obj);
          averageHeight = y2 - lg_minY1 obj;
          maxSpaceSize = averageHeight * 2
      in case boxesSorted of
           [] \<Rightarrow> Inl TypeError
         | first # rest \<Rightarrow> Inr (y2, partition_loop maxSpaceSize [] first rest))"

fun collect :: "('a \<Rightarrow> js_error + 'b) \<Rightarrow> 'a list \<Rightarrow> js_error + 'b list" where
  "collect f [] = Inr []"
| "collect f (x # xs) =
     (case f x of
        Inl err \<Rightarrow> Inl err
      | Inr y \<Rightarrow> (case collect f xs of Inl err \<Rightarrow> Inl err | Inr ys \<Rightarrow> Inr (y # ys)))"

definition annotationBox ::
  "real \<Rightarrow> real \<Rightarrow> real \<Rightarrow> real \<Rightarrow> real \<Rightarrow> line_box \<Rightarrow> line_rect" where
  "annotationBox shiftedMinX shiftedMinY bboxWidth bboxHeight y2 b =
     \<lparr>lr_x1 = (lb_x1 b - shiftedMinX) / bboxWidth,
      lr_x2 = (lb_x2 b - shiftedMinX) / bboxWidth,
      lr_y1 = (lb_y1 b - shiftedMinY) / bboxHeight,
      lr_y2 = (y2 - shiftedMinY) / bboxHeight\<rparr>"

definition line_rects ::
  "real \<Rightarrow> real \<Rightarrow> real \<Rightarrow> real \<Rightarrow> line_object \<Rightarrow> js_error + line_rect list" where
  "line_rects shiftedMinX shiftedMinY bboxWidth bboxHeight lineByBaseHeight =
     (case merge_lines lineByBaseHeight of
        Inl err \<Rightarrow> Inl err
      | Inr merged \<Rightarrow>
         (case collect partition_line (object_entries merged) of
            Inl err \<Rightarrow> Inl err
          | Inr partitionedLines \<Rightarrow>
              Inr (concat (map (\<lambda>(y2, partitionedBoxes).
                     map (annotationBox shiftedMinX shiftedMinY bboxWidth bboxHeight y2)
                       partitionedBoxes) partitionedLines))))"

subsection \<open>The constructor\<close>

definition to_box_coordinates :: "real \<Rightarrow> real \<Rightarrow> real \<Rightarrow> real \<Rightarrow> vedge \<Rightarrow> vedge" where
  "to_box_coordinates shiftedMinX shiftedMinY bboxWidth bboxHeight e =
     ((edge_x e - shiftedMinX) / bboxWidth,
      (edge_y1 e - shiftedMinY) / bboxHeight,
      (edge_y2 e - shiftedMinY) / bboxHeight,
      edge_isLeft e)"

text \<open>
  \<^verbatim>\<open>new Outliner(boxes, borderWidth, innerMargin, isLTR, skipLineRects)\<close>. With no box
  \<^verbatim>\<open>lastEdge\<close> is \<^verbatim>\<open>undefined\<close> and reading \<^verbatim>\<open>lastEdge[0]\<close> throws; the bounds of the
  bounding rectangle are numbers as soon as one box was read.
\<close>

definition constructor :: "box list \<Rightarrow> real \<Rightarrow> real \<Rightarrow> bool \<Rightarrow> bool \<Rightarrow> outliner outcome" where
  "constructor boxes borderWidth innerMargin isLTR skipLineRects =
     (let st = read_boxes borderWidth boxes;
          verticalEdges = ls_verticalEdges st
      in case (if isLTR then at_last verticalEdges else at_before_last verticalEdges) of
           None \<Rightarrow> Threw TypeError
         | Some lastEdge \<Rightarrow>
            (case (ls_minX st, ls_maxX st, ls_minY st, ls_maxY st) of
               (Some minX, Some maxX, Some minY, Some maxY) \<Rightarrow>
                 (let bboxWidth = maxX - minX + 2 * innerMargin;
                      bboxHeight = maxY - minY + 2 * innerMargin;
                      shiftedMinX = minX - innerMargin;
                      shiftedMinY = minY - innerMargin;
                      lastPoint = (edge_x lastEdge, edge_y2 lastEdge);
                      bbox = \<lparr>bb_x = shiftedMinX, bb_y = shiftedMinY, bb_width = bboxWidth,
                              bb_height = bboxHeight, bb_lastPoint = lastPoint\<rparr>;
                      edges = map (to_box_coordinates shiftedMinX shiftedMinY bboxWidth
                                     bboxHeight) verticalEdges
                  in if bboxWidth = 0 \<or> bboxHeight = 0 then ReturnedNonFinite
                     else if skipLineRects then
                       Returned \<lparr>o_box = bbox, o_verticalEdges = edges, o_intervals = [],
                                 o_lineRects = []\<rparr>
                     else
                       (case line_rects shiftedMinX shiftedMinY bboxWidth bboxHeight
                               (ls_lineByBaseHeight st) of
                          Inl err \<Rightarrow> Threw err
                        | Inr lineRects \<Rightarrow>
                            Returned \<lparr>o_box = bbox, o_verticalEdges = edges, o_intervals = [],
                                      o_lineRects = lineRects\<rparr>))
             | _ \<Rightarrow> Threw TypeError))"


section \<open>\<^verbatim>\<open>getOutlines\<close>\<close>

subsection \<open>Linking the pieces: \<^verbatim>\<open>#getOutlines\<close>\<close>

text \<open>
  A piece of \<^verbatim>\<open>outlineVerticalEdges\<close> is an array object that the code compares by
  identity and extends by \<^verbatim>\<open>push\<close>; the model names it by its index in
  \<^verbatim>\<open>outlineVerticalEdges\<close> and keeps what was pushed onto it in a list of its own
  (\<open>pushed ! i\<close>, so that \<^verbatim>\<open>edge[3]\<close> and \<^verbatim>\<open>edge[4]\<close> are its first two elements, if
  any). A vertex is \<^verbatim>\<open>[x, y, edge]\<close>; the set \<^verbatim>\<open>allEdges\<close> is the list of its elements in
  insertion order.
\<close>

type_synonym vertex = "real \<times> real \<times> nat"

definition vertices_of :: "fragment list \<Rightarrow> vertex list" where
  "vertices_of outlineVerticalEdges =
     concat (map (\<lambda>i. [(fst (outlineVerticalEdges ! i), frag_lo (outlineVerticalEdges ! i), i),
                        (fst (outlineVerticalEdges ! i), frag_hi (outlineVerticalEdges ! i), i)])
               [0 ..< length outlineVerticalEdges])"

definition set_add :: "nat list \<Rightarrow> nat \<Rightarrow> nat list" where
  "set_add s e = (if e \<in> set s then s else s @ [e])"

definition push_onto :: "nat list list \<Rightarrow> nat \<Rightarrow> nat \<Rightarrow> nat list list" where
  "push_onto pushed e v = pushed[e := pushed ! e @ [v]]"

text \<open>The loop \<^verbatim>\<open>for (let i = 0, ii = edges.length; i < ii; i += 2)\<close>; with an odd number
  of vertices \<^verbatim>\<open>edges[i + 1]\<close> would be \<^verbatim>\<open>undefined\<close>.\<close>

fun link_pairs ::
  "vertex list \<Rightarrow> nat list list \<Rightarrow> nat list \<Rightarrow> js_error + (nat list list \<times> nat list)" where
  "link_pairs [] pushed allEdges = Inr (pushed, allEdges)"
| "link_pairs [v] pushed allEdges = Inl TypeError"
| "link_pairs (v # w # vs) pushed allEdges =
     (let edge1 = snd (snd v);
          edge2 = snd (snd w)
      in link_pairs vs (push_onto (push_onto pushed edge1 edge2) edge2 edge1)
           (set_add (set_add allEdges edge1) edge2))"

definition nth_opt :: "'a list \<Rightarrow> nat \<Rightarrow> 'a option" where
  "nth_opt xs i = (if i < length xs then Some (xs ! i) else None)"

definition has :: "nat list \<Rightarrow> nat option \<Rightarrow> bool" where
  "has allEdges e = (case e of None \<Rightarrow> False | Some i \<Rightarrow> i \<in> set allEdges)"

text \<open>
  The state of the inner \<^verbatim>\<open>while (true)\<close>: the set \<^verbatim>\<open>allEdges\<close>, the array
  \<^verbatim>\<open>outline\<close>, \<^verbatim>\<open>lastPointX\<close>, \<^verbatim>\<open>lastPointY\<close>, \<^verbatim>\<open>edge1\<close> and \<^verbatim>\<open>edge2\<close>.
\<close>

record walk =
  w_allEdges :: "nat list"
  w_outline :: "real list"
  w_lastPointX :: real
  w_lastPointY :: real
  w_edge1 :: "nat option"
  w_edge2 :: "nat option"

text \<open>One turn of the loop for the chosen edge \<^verbatim>\<open>e\<close>.\<close>

definition walk_step :: "fragment list \<Rightarrow> nat list list \<Rightarrow> nat \<Rightarrow> walk \<Rightarrow> walk" where
  "walk_step edges pushed e w =
     (let x = fst (edges ! e);
          y1 = frag_lo (edges ! e);
          y2 = frag_hi (edges ! e);
          lastPointX = w_lastPointX w;
          lastPointY = w_lastPointY w;
          turn = (lastPointX \<noteq> x)
      in \<lparr>w_allEdges = remove1 e (w_allEdges w),
          w_outline =
            (if turn
             then w_outline w @ [lastPointX, lastPointY, x, if lastPointY = y1 then y1 else y2]
             else w_outline w),
          w_lastPointX = (if turn then x else lastPointX),
          w_lastPointY = (if lastPointY = y1 then y2 else y1),
          w_edge1 = nth_opt (pushed ! e) 0,
          w_edge2 = nth_opt (pushed ! e) 1\<rparr>)"

function walk_loop :: "fragment list \<Rightarrow> nat list list \<Rightarrow> walk \<Rightarrow> walk" where
  "walk_loop edges pushed w =
     (if has (w_allEdges w) (w_edge1 w) then
        walk_loop edges pushed (walk_step edges pushed (the (w_edge1 w)) w)
      else if has (w_allEdges w) (w_edge2 w) then
        walk_loop edges pushed (walk_step edges pushed (the (w_edge2 w)) w)
      else w\<lparr>w_outline := w_outline w @ [w_lastPointX w, w_lastPointY w]\<rparr>)"
  by pat_completeness auto
termination
  by (relation "measure (\<lambda>(edges, pushed, w). length (w_allEdges w))")
    (auto simp: has_def walk_step_def Let_def length_remove1 split: option.splits
      dest: length_pos_if_in_set)

declare walk_loop.simps [simp del]

lemma walk_loop_length:
  "length (w_allEdges (walk_loop edges pushed w)) \<le> length (w_allEdges w)"
proof (induction edges pushed w rule: walk_loop.induct)
  case (1 edges pushed w)
  have s: "length (w_allEdges (walk_step edges pushed e w)) \<le> length (w_allEdges w)" for e
    by (simp add: walk_step_def Let_def length_remove1)
  show ?case
    using 1 s[of "the (w_edge1 w)"] s[of "the (w_edge2 w)"]
    by (subst walk_loop.simps) (auto simp: le_trans)
qed

text \<open>The outer \<^verbatim>\<open>while (allEdges.size > 0)\<close>; \<^verbatim>\<open>allEdges.values().next().value\<close> is the
  first element in insertion order.\<close>

definition start_walk :: "fragment list \<Rightarrow> nat list list \<Rightarrow> nat list \<Rightarrow> nat \<Rightarrow> walk" where
  "start_walk edges pushed allEdges edge =
     \<lparr>w_allEdges = remove1 edge allEdges,
      w_outline = [fst (edges ! edge), frag_hi (edges ! edge)],
      w_lastPointX = fst (edges ! edge),
      w_lastPointY = frag_lo (edges ! edge),
      w_edge1 = nth_opt (pushed ! edge) 0,
      w_edge2 = nth_opt (pushed ! edge) 1\<rparr>"

function outlines_loop ::
  "fragment list \<Rightarrow> nat list list \<Rightarrow> nat list \<Rightarrow> real list list \<Rightarrow> real list list" where
  "outlines_loop edges pushed allEdges outlines =
     (case allEdges of
        [] \<Rightarrow> outlines
      | edge # others \<Rightarrow>
         (let w = walk_loop edges pushed (start_walk edges pushed allEdges edge)
          in outlines_loop edges pushed (w_allEdges w) (outlines @ [w_outline w])))"
  by pat_completeness auto
termination
proof (relation "measure (\<lambda>(edges, pushed, allEdges, outlines). length allEdges)", goal_cases)
  case 1
  then show ?case by simp
next
  case (2 edges pushed allEdges outlines edge others w)
  have "length (w_allEdges w) \<le> length (w_allEdges (start_walk edges pushed allEdges edge))"
    unfolding 2(2) by (rule walk_loop_length)
  also have "\<dots> < length allEdges"
    using 2(1) by (simp add: start_walk_def)
  finally show ?case by simp
qed

declare outlines_loop.simps [simp del]

record outlines_result =
  r_outlines :: "real list list"
  r_box :: bounding_box
  r_lineRects :: "line_rect list"

definition getOutlines_private ::
  "outliner \<Rightarrow> fragment list \<Rightarrow> js_error + outlines_result" where
  "getOutlines_private this outlineVerticalEdges =
     (let edges = sort_key (\<lambda>v. (fst (snd v), fst v)) (vertices_of outlineVerticalEdges)
      in case link_pairs edges (replicate (length outlineVerticalEdges) []) [] of
           Inl err \<Rightarrow> Inl err
         | Inr (pushed, allEdges) \<Rightarrow>
             Inr \<lparr>r_outlines = outlines_loop outlineVerticalEdges pushed allEdges [],
                  r_box = o_box this, r_lineRects = o_lineRects this\<rparr>)"

text \<open>
  \<^verbatim>\<open>getOutlines\<close>: the sort of \<^verbatim>\<open>#verticalEdges\<close> is stable and in place, and the sweep
  works on \<^verbatim>\<open>#intervals\<close>; the updated object is returned with the result.
\<close>

definition getOutlines :: "outliner \<Rightarrow> (js_error + outlines_result) \<times> outliner" where
  "getOutlines this =
     (let verticalEdges = sort_key (\<lambda>e. (edge_x e, edge_y1 e, edge_y2 e)) (o_verticalEdges this);
          swept = sweep verticalEdges (o_intervals this) [];
          this' = this\<lparr>o_verticalEdges := verticalEdges, o_intervals := snd swept\<rparr>
      in (getOutlines_private this' (fst swept), this'))"

definition getOutlines_of :: "outliner outcome \<Rightarrow> (js_error + outlines_result) option" where
  "getOutlines_of r = (case r of Returned this \<Rightarrow> Some (fst (getOutlines this)) | _ \<Rightarrow> None)"

section \<open>What the constructor computes\<close>

definition left_edge :: "real \<Rightarrow> box \<Rightarrow> vedge" where
  "left_edge borderWidth b =
     (round_x1 borderWidth b, round_y1 borderWidth b, round_y2 borderWidth b, True)"

definition right_edge :: "real \<Rightarrow> box \<Rightarrow> vedge" where
  "right_edge borderWidth b =
     (round_x2 borderWidth b, round_y1 borderWidth b, round_y2 borderWidth b, False)"

definition line_box_of :: "real \<Rightarrow> box \<Rightarrow> line_box" where
  "line_box_of borderWidth b =
     \<lparr>lb_x1 = round_x1 borderWidth b, lb_y1 = round_y1 borderWidth b,
      lb_x2 = round_x2 borderWidth b\<rparr>"

definition raw_edges :: "real \<Rightarrow> box list \<Rightarrow> vedge list" where
  "raw_edges borderWidth boxes =
     concat (map (\<lambda>b. [left_edge borderWidth b, right_edge borderWidth b]) boxes)"

definition min_of :: "(box \<Rightarrow> real) \<Rightarrow> box list \<Rightarrow> real" where
  "min_of f boxes = Min (f ` set boxes)"

definition max_of :: "(box \<Rightarrow> real) \<Rightarrow> box list \<Rightarrow> real" where
  "max_of f boxes = Max (f ` set boxes)"

definition bbox_width :: "real \<Rightarrow> real \<Rightarrow> box list \<Rightarrow> real" where
  "bbox_width borderWidth innerMargin boxes =
     max_of (round_x2 borderWidth) boxes - min_of (round_x1 borderWidth) boxes + 2 * innerMargin"

definition bbox_height :: "real \<Rightarrow> real \<Rightarrow> box list \<Rightarrow> real" where
  "bbox_height borderWidth innerMargin boxes =
     max_of (round_y2 borderWidth) boxes - min_of (round_y1 borderWidth) boxes + 2 * innerMargin"

definition lines_ok :: "line_box set \<Rightarrow> real set \<Rightarrow> line_object \<Rightarrow> bool" where
  "lines_ok L K obj \<longleftrightarrow>
     (\<forall>p\<in>set obj. fst p \<in> K \<and> lg_boxes (snd p) \<noteq> [] \<and> set (lg_boxes (snd p)) \<subseteq> L)"

lemma add_box_fields:
  "ls_verticalEdges (add_box bw b st) = ls_verticalEdges st @ [left_edge bw b, right_edge bw b]"
  "ls_minX (add_box bw b st) = math_min (ls_minX st) (round_x1 bw b)"
  "ls_maxX (add_box bw b st) = math_max (ls_maxX st) (round_x2 bw b)"
  "ls_minY (add_box bw b st) = math_min (ls_minY st) (round_y1 bw b)"
  "ls_maxY (add_box bw b st) = math_max (ls_maxY st) (round_y2 bw b)"
  by (simp_all add: add_box_def Let_def left_edge_def right_edge_def)

lemma add_box_lines:
  "ls_lineByBaseHeight (add_box bw b st) =
     AList.update (round_y2 bw b)
       (case map_of (ls_lineByBaseHeight st) (round_y2 bw b) of
          None \<Rightarrow> \<lparr>lg_boxes = [line_box_of bw b], lg_minY1 = round_y1 bw b\<rparr>
        | Some prev \<Rightarrow> \<lparr>lg_boxes = lg_boxes prev @ [line_box_of bw b],
                       lg_minY1 = min (lg_minY1 prev) (round_y1 bw b)\<rparr>)
       (ls_lineByBaseHeight st)"
  by (simp add: add_box_def Let_def line_box_of_def split: option.split)

lemma fold_add_box_edges:
  "ls_verticalEdges (fold (add_box bw) boxes st) = ls_verticalEdges st @ raw_edges bw boxes"
  by (induction boxes arbitrary: st) (simp_all add: raw_edges_def add_box_fields)

lemma fold_math_min:
  "fold (\<lambda>b acc. math_min acc (f b)) bs acc =
     (if bs = [] then acc else Some (Min (f ` set bs \<union> set_option acc)))"
proof (induction bs arbitrary: acc)
  case Nil
  then show ?case by simp
next
  case (Cons b bs)
  show ?case
  proof (cases acc)
    case None
    then show ?thesis using Cons.IH[of "Some (f b)"]
      by (auto simp: math_min_def insert_commute)
  next
    case (Some m)
    have "Min (insert (min m (f b)) (f ` set bs)) = Min (insert (f b) (insert m (f ` set bs)))"
      by (cases "bs = []") (auto simp: min.commute min.left_commute min.assoc)
    then show ?thesis using Some Cons.IH[of "Some (min m (f b))"]
      by (auto simp: math_min_def insert_commute)
  qed
qed

lemma fold_math_max:
  "fold (\<lambda>b acc. math_max acc (f b)) bs acc =
     (if bs = [] then acc else Some (Max (f ` set bs \<union> set_option acc)))"
proof (induction bs arbitrary: acc)
  case Nil
  then show ?case by simp
next
  case (Cons b bs)
  show ?case
  proof (cases acc)
    case None
    then show ?thesis using Cons.IH[of "Some (f b)"]
      by (auto simp: math_max_def insert_commute)
  next
    case (Some m)
    have "Max (insert (max m (f b)) (f ` set bs)) = Max (insert (f b) (insert m (f ` set bs)))"
      by (cases "bs = []") (auto simp: max.commute max.left_commute max.assoc)
    then show ?thesis using Some Cons.IH[of "Some (max m (f b))"]
      by (auto simp: math_max_def insert_commute)
  qed
qed

lemma fold_add_box_bounds:
  "ls_minX (fold (add_box bw) boxes st) = fold (\<lambda>b acc. math_min acc (round_x1 bw b)) boxes (ls_minX st)"
  "ls_maxX (fold (add_box bw) boxes st) = fold (\<lambda>b acc. math_max acc (round_x2 bw b)) boxes (ls_maxX st)"
  "ls_minY (fold (add_box bw) boxes st) = fold (\<lambda>b acc. math_min acc (round_y1 bw b)) boxes (ls_minY st)"
  "ls_maxY (fold (add_box bw) boxes st) = fold (\<lambda>b acc. math_max acc (round_y2 bw b)) boxes (ls_maxY st)"
  by (induction boxes arbitrary: st) (simp_all add: add_box_fields)

lemma read_boxes_edges: "ls_verticalEdges (read_boxes bw boxes) = raw_edges bw boxes"
  by (simp add: read_boxes_def fold_add_box_edges initial_state_def)

lemma read_boxes_bounds:
  "boxes \<noteq> [] \<Longrightarrow> ls_minX (read_boxes bw boxes) = Some (min_of (round_x1 bw) boxes)"
  "boxes \<noteq> [] \<Longrightarrow> ls_maxX (read_boxes bw boxes) = Some (max_of (round_x2 bw) boxes)"
  "boxes \<noteq> [] \<Longrightarrow> ls_minY (read_boxes bw boxes) = Some (min_of (round_y1 bw) boxes)"
  "boxes \<noteq> [] \<Longrightarrow> ls_maxY (read_boxes bw boxes) = Some (max_of (round_y2 bw) boxes)"
  by (simp_all add: read_boxes_def fold_add_box_bounds fold_math_min fold_math_max
      initial_state_def min_of_def max_of_def)

lemma set_update_subset: "set (AList.update k v al) \<subseteq> insert (k, v) (set al)"
  by (induction al) auto

lemma set_delete_subset: "set (AList.delete k al) \<subseteq> set al"
  by (auto simp: AList.delete_eq)

lemma lines_ok_update:
  "lines_ok L K obj \<Longrightarrow> k \<in> K \<Longrightarrow> lg_boxes g \<noteq> [] \<Longrightarrow> set (lg_boxes g) \<subseteq> L \<Longrightarrow>
   lines_ok L K (AList.update k g obj)"
  unfolding lines_ok_def using set_update_subset[of k g obj] by fastforce

lemma lines_ok_delete: "lines_ok L K obj \<Longrightarrow> lines_ok L K (AList.delete k obj)"
  unfolding lines_ok_def using set_delete_subset[of k obj] by blast

lemma lines_ok_lookup:
  "lines_ok L K obj \<Longrightarrow> map_of obj k = Some g \<Longrightarrow> lg_boxes g \<noteq> [] \<and> set (lg_boxes g) \<subseteq> L"
  unfolding lines_ok_def by (metis map_of_SomeD snd_conv)

lemma add_box_lines_ok:
  assumes "lines_ok L K (ls_lineByBaseHeight st)" "line_box_of bw b \<in> L" "round_y2 bw b \<in> K"
  shows "lines_ok L K (ls_lineByBaseHeight (add_box bw b st))"
  unfolding add_box_lines
  using assms lines_ok_lookup[OF assms(1)]
  by (intro lines_ok_update) (auto split: option.splits)

lemma fold_add_box_lines_ok:
  "lines_ok L K (ls_lineByBaseHeight st) \<Longrightarrow> line_box_of bw ` set boxes \<subseteq> L \<Longrightarrow>
   round_y2 bw ` set boxes \<subseteq> K \<Longrightarrow>
   lines_ok L K (ls_lineByBaseHeight (fold (add_box bw) boxes st))"
  by (induction boxes arbitrary: st) (simp_all add: add_box_lines_ok)

lemma fold_add_box_distinct:
  "distinct (map fst (ls_lineByBaseHeight st)) \<Longrightarrow>
   distinct (map fst (ls_lineByBaseHeight (fold (add_box bw) boxes st)))"
  by (induction boxes arbitrary: st) (simp_all add: add_box_lines AList.distinct_update)

lemma read_boxes_lines_ok:
  "lines_ok (line_box_of bw ` set boxes) (round_y2 bw ` set boxes)
     (ls_lineByBaseHeight (read_boxes bw boxes))"
  unfolding read_boxes_def
  by (rule fold_add_box_lines_ok) (simp_all add: initial_state_def lines_ok_def)

lemma read_boxes_distinct: "distinct (map fst (ls_lineByBaseHeight (read_boxes bw boxes)))"
  unfolding read_boxes_def by (rule fold_add_box_distinct) (simp add: initial_state_def)


lemma key_lookup: "k \<in> fst ` set obj \<Longrightarrow> \<exists>g. map_of obj k = Some g"
  by (metis domIff dom_map_of_conv_image_fst not_Some_eq)

lemma merge_loop_ok:
  "lines_ok L K old \<Longrightarrow> lines_ok L K new \<Longrightarrow> prevY2 \<in> fst ` set new \<Longrightarrow>
   set rest \<subseteq> fst ` set old \<Longrightarrow> distinct (prevY2 # rest) \<Longrightarrow>
   \<exists>r. merge_loop old prevY2 rest new = Inr r \<and> lines_ok L K r"
proof (induction rest arbitrary: prevY2 new)
  case Nil
  then show ?case by simp
next
  case (Cons currentY2 rest)
  obtain prevObj where p: "map_of new prevY2 = Some prevObj"
    using key_lookup[OF Cons.prems(3)] by blast
  obtain currentObj where c: "map_of old currentY2 = Some currentObj"
    using key_lookup[of currentY2 old] Cons.prems(4) by auto
  note po = lines_ok_lookup[OF Cons.prems(2) p]
  note co = lines_ok_lookup[OF Cons.prems(1) c]
  have ck: "currentY2 \<in> K"
    using Cons.prems(1) map_of_SomeD[OF c] unfolding lines_ok_def by fastforce
  have ne: "currentY2 \<noteq> prevY2" using Cons.prems(5) by auto
  have d: "distinct (currentY2 # rest)" "set rest \<subseteq> fst ` set old"
    using Cons.prems(4,5) by auto
  define merged where "merged = \<lparr>lg_boxes = lg_boxes prevObj @ lg_boxes currentObj,
        lg_minY1 = min (lg_minY1 prevObj) (lg_minY1 currentObj)\<rparr>"
  define new1 where "new1 = AList.delete prevY2 (AList.update currentY2 merged new)"
  define new2 where "new2 = AList.update currentY2 currentObj new"
  have ok1: "lines_ok L K new1"
    unfolding new1_def using po co ck Cons.prems(2)
    by (intro lines_ok_delete lines_ok_update) (auto simp: merged_def)
  have ok2: "lines_ok L K new2"
    unfolding new2_def using co ck Cons.prems(2) by (intro lines_ok_update) auto
  have in1: "currentY2 \<in> fst ` set new1"
    unfolding new1_def using ne
    by (simp add: AList.delete_update AList.dom_update)
  have in2: "currentY2 \<in> fst ` set new2"
    unfolding new2_def by (simp add: AList.dom_update)
  show ?case
  proof (cases "string_ge (number_to_string currentY2) (number_to_string prevY2)
                 \<and> lg_minY1 prevObj \<ge> lg_minY1 currentObj")
    case True
    then have "merge_loop old prevY2 (currentY2 # rest) new = merge_loop old currentY2 rest new1"
      by (simp add: p c new1_def merged_def)
    then show ?thesis using Cons.IH[OF Cons.prems(1) ok1 in1 d(2) d(1)] by simp
  next
    case False
    then have "merge_loop old prevY2 (currentY2 # rest) new = merge_loop old currentY2 rest new2"
      by (auto simp: p c new2_def)
    then show ?thesis using Cons.IH[OF Cons.prems(1) ok2 in2 d(2) d(1)] by simp
  qed
qed

lemma set_object_entries [simp]: "set (object_entries obj) = set obj"
  unfolding object_entries_def by auto

lemma distinct_object_keys:
  "distinct (map fst obj) \<Longrightarrow> distinct (object_keys obj)"
proof -
  assume d: "distinct (map fst obj)"
  have "mset (object_entries obj) = mset obj"
    unfolding object_entries_def by (simp add: union_commute)
  then have "mset (map fst (object_entries obj)) = mset (map fst obj)"
    by (metis mset_map)
  then show ?thesis unfolding object_keys_def using d by (metis mset_eq_imp_distinct_iff)
qed

lemma set_object_keys [simp]: "set (object_keys obj) = fst ` set obj"
  unfolding object_keys_def by simp

lemma merge_lines_ok:
  assumes "lines_ok L K obj" "distinct (map fst obj)"
  shows "\<exists>r. merge_lines obj = Inr r \<and> lines_ok L K r"
proof (cases "sort_key (\<lambda>k. k) (object_keys obj)")
  case Nil
  then show ?thesis using assms by (simp add: merge_lines_def)
next
  case (Cons firstValue rest)
  have s: "set (firstValue # rest) = fst ` set obj"
    by (metis Cons set_object_keys set_sort)
  have d: "distinct (firstValue # rest)"
    by (metis Cons distinct_object_keys[OF assms(2)] distinct_sort)
  obtain g where g: "map_of obj firstValue = Some g"
    using key_lookup[of firstValue obj] s by auto
  have fk: "firstValue \<in> K"
    using assms(1) map_of_SomeD[OF g] unfolding lines_ok_def by fastforce
  have ok: "lines_ok L K [(firstValue, g)]"
    using lines_ok_lookup[OF assms(1) g] fk by (simp add: lines_ok_def)
  have "\<exists>r. merge_loop obj firstValue rest [(firstValue, g)] = Inr r \<and> lines_ok L K r"
    using s d by (intro merge_loop_ok[OF assms(1) ok]) auto
  then show ?thesis by (simp add: merge_lines_def Cons g)
qed




lemma collect_ok:
  "(\<And>x. x \<in> set xs \<Longrightarrow> \<exists>y. f x = Inr y \<and> P x y) \<Longrightarrow>
   \<exists>ys. collect f xs = Inr ys \<and> list_all2 P xs ys"
proof (induction xs)
  case Nil
  then show ?case by simp
next
  case (Cons x xs)
  obtain y where y: "f x = Inr y" "P x y" using Cons.prems[of x] by auto
  obtain ys where ys: "collect f xs = Inr ys" "list_all2 P xs ys"
    using Cons.IH Cons.prems by auto
  show ?case using y ys by simp
qed


lemma partition_line_total:
  "lg_boxes (snd entry) \<noteq> [] \<Longrightarrow> \<exists>bs. partition_line entry = Inr (fst entry, bs)"
proof (cases "sort_key lb_x1 (lg_boxes (snd entry))")
  case Nil
  assume "lg_boxes (snd entry) \<noteq> []"
  moreover have "set (lg_boxes (snd entry)) = {}" using Nil by (metis set_sort set_empty2)
  ultimately show ?thesis by simp
next
  case (Cons first rest)
  then show ?thesis by (simp add: partition_line_def Let_def)
qed




lemma line_rects_total:
  assumes "lines_ok L K obj" "distinct (map fst obj)"
  shows "\<exists>rs. line_rects sx sy W H obj = Inr rs"
proof -
  obtain merged where m: "merge_lines obj = Inr merged" "lines_ok L K merged"
    using merge_lines_ok[OF assms] by blast
  have "\<exists>ys. collect partition_line (object_entries merged) = Inr ys \<and>
          list_all2 (\<lambda>x y. True) (object_entries merged) ys"
  proof (rule collect_ok)
    fix x assume "x \<in> set (object_entries merged)"
    then have "lg_boxes (snd x) \<noteq> []" using m(2) by (simp add: lines_ok_def)
    then show "\<exists>y. partition_line x = Inr y \<and> True" using partition_line_total by blast
  qed
  then show ?thesis using m(1) by (auto simp: line_rects_def)
qed


subsection \<open>The result of the constructor\<close>

definition expected_box :: "real \<Rightarrow> real \<Rightarrow> bool \<Rightarrow> box list \<Rightarrow> bounding_box" where
  "expected_box borderWidth innerMargin isLTR boxes =
     \<lparr>bb_x = min_of (round_x1 borderWidth) boxes - innerMargin,
      bb_y = min_of (round_y1 borderWidth) boxes - innerMargin,
      bb_width = bbox_width borderWidth innerMargin boxes,
      bb_height = bbox_height borderWidth innerMargin boxes,
      bb_lastPoint =
        (if isLTR then round_x2 borderWidth (last boxes) else round_x1 borderWidth (last boxes),
         round_y2 borderWidth (last boxes))\<rparr>"

definition expected_edges :: "real \<Rightarrow> real \<Rightarrow> box list \<Rightarrow> vedge list" where
  "expected_edges borderWidth innerMargin boxes =
     map (to_box_coordinates (min_of (round_x1 borderWidth) boxes - innerMargin)
            (min_of (round_y1 borderWidth) boxes - innerMargin)
            (bbox_width borderWidth innerMargin boxes)
            (bbox_height borderWidth innerMargin boxes))
       (raw_edges borderWidth boxes)"

definition expected_lineRects :: "real \<Rightarrow> real \<Rightarrow> box list \<Rightarrow> js_error + line_rect list" where
  "expected_lineRects borderWidth innerMargin boxes =
     line_rects (min_of (round_x1 borderWidth) boxes - innerMargin)
       (min_of (round_y1 borderWidth) boxes - innerMargin)
       (bbox_width borderWidth innerMargin boxes)
       (bbox_height borderWidth innerMargin boxes)
       (ls_lineByBaseHeight (read_boxes borderWidth boxes))"

lemma raw_edges_snoc:
  "raw_edges bw (bs @ [b]) = raw_edges bw bs @ [left_edge bw b, right_edge bw b]"
  by (simp add: raw_edges_def)

lemma last_edges:
  assumes "boxes \<noteq> []"
  shows "at_last (raw_edges bw boxes) = Some (right_edge bw (last boxes))"
    and "at_before_last (raw_edges bw boxes) = Some (left_edge bw (last boxes))"
proof -
  have "raw_edges bw boxes = raw_edges bw (butlast boxes @ [last boxes])"
    using assms by simp
  then have e: "raw_edges bw boxes
      = raw_edges bw (butlast boxes) @ [left_edge bw (last boxes), right_edge bw (last boxes)]"
    by (simp only: raw_edges_snoc)
  show "at_last (raw_edges bw boxes) = Some (right_edge bw (last boxes))"
    unfolding e at_last_def by (simp add: nth_append)
  show "at_before_last (raw_edges bw boxes) = Some (left_edge bw (last boxes))"
    unfolding e at_before_last_def by (simp add: nth_append)
qed

lemma constructor_empty: "constructor [] bw im isLTR skip = Threw TypeError"
  by (simp add: constructor_def read_boxes_def initial_state_def at_last_def at_before_last_def)

lemma constructor_nonfinite:
  "boxes \<noteq> [] \<Longrightarrow> bbox_width bw im boxes = 0 \<or> bbox_height bw im boxes = 0 \<Longrightarrow>
   constructor boxes bw im isLTR skip = ReturnedNonFinite"
  by (auto simp: constructor_def Let_def read_boxes_edges read_boxes_bounds last_edges
      bbox_width_def bbox_height_def)

lemma constructor_returned:
  assumes "boxes \<noteq> []" "bbox_width bw im boxes \<noteq> 0" "bbox_height bw im boxes \<noteq> 0"
  shows "\<exists>lineRects.
     (if skip then lineRects = [] else expected_lineRects bw im boxes = Inr lineRects) \<and>
     constructor boxes bw im isLTR skip =
       Returned \<lparr>o_box = expected_box bw im isLTR boxes,
                 o_verticalEdges = expected_edges bw im boxes,
                 o_intervals = [], o_lineRects = lineRects\<rparr>"
proof -
  obtain rs where rs: "expected_lineRects bw im boxes = Inr rs"
    unfolding expected_lineRects_def
    using line_rects_total[OF read_boxes_lines_ok read_boxes_distinct] by blast
  show ?thesis
  proof (cases skip)
    case True
    then show ?thesis using assms
      by (simp add: constructor_def Let_def read_boxes_edges read_boxes_bounds last_edges
          bbox_width_def bbox_height_def expected_box_def expected_edges_def
          left_edge_def right_edge_def edge_simps)
  next
    case False
    then show ?thesis using assms rs
      by (simp add: constructor_def Let_def read_boxes_edges read_boxes_bounds last_edges
          bbox_width_def bbox_height_def expected_box_def expected_edges_def
          expected_lineRects_def left_edge_def right_edge_def edge_simps)
  qed
qed


section \<open>Claims about the constructor\<close>

lemmas round_simps = round_x1_def round_x2_def round_y1_def round_y2_def EPSILON_def

lemmas string_simps = number_to_string_def digits_of.simps fraction_digits_def digit_char_def
  string_ge_def

text \<open>
  Claim C9, as amended. With an empty box list the constructor throws a
  \<^verbatim>\<open>TypeError\<close> (reading \<^verbatim>\<open>lastEdge[0]\<close> of \<^verbatim>\<open>undefined\<close>). A list that is not empty is
  never rejected: the constructor returns, with coordinates that are not finite exactly
  when the width or the height of the bounding box (margin included) is zero.
\<close>

theorem constructor_throws_only_on_empty:
  "constructor [] bw im isLTR skip = Threw TypeError \<and>
   (boxes \<noteq> [] \<longrightarrow>
      (constructor boxes bw im isLTR skip = ReturnedNonFinite \<longleftrightarrow>
         bbox_width bw im boxes = 0 \<or> bbox_height bw im boxes = 0) \<and>
      (bbox_width bw im boxes \<noteq> 0 \<and> bbox_height bw im boxes \<noteq> 0 \<longrightarrow>
         (\<exists>this. constructor boxes bw im isLTR skip = Returned this)))"
proof (intro conjI impI)
  show "constructor [] bw im isLTR skip = Threw TypeError" by (rule constructor_empty)
next
  assume ne: "boxes \<noteq> []"
  show "constructor boxes bw im isLTR skip = ReturnedNonFinite \<longleftrightarrow>
         bbox_width bw im boxes = 0 \<or> bbox_height bw im boxes = 0"
  proof
    assume r: "constructor boxes bw im isLTR skip = ReturnedNonFinite"
    show "bbox_width bw im boxes = 0 \<or> bbox_height bw im boxes = 0"
    proof (rule ccontr)
      assume "\<not> (bbox_width bw im boxes = 0 \<or> bbox_height bw im boxes = 0)"
      then show False using constructor_returned[OF ne, of bw im skip isLTR] r by auto
    qed
  next
    assume "bbox_width bw im boxes = 0 \<or> bbox_height bw im boxes = 0"
    then show "constructor boxes bw im isLTR skip = ReturnedNonFinite"
      by (rule constructor_nonfinite[OF ne])
  qed
next
  assume "boxes \<noteq> []" "bbox_width bw im boxes \<noteq> 0 \<and> bbox_height bw im boxes \<noteq> 0"
  then show "\<exists>this. constructor boxes bw im isLTR skip = Returned this"
    using constructor_returned[of boxes bw im skip isLTR] by blast
qed

theorem constructor_throws_only_on_empty_witness:
  "constructor [] 0 0 True False = Threw TypeError \<and>
   [\<lparr>box_x = 0, box_y = 0, box_width = 1, box_height = 1\<rparr>] \<noteq> [] \<and>
   bbox_width 0 0 [\<lparr>box_x = 0, box_y = 0, box_width = 1, box_height = 1\<rparr>] = 1 \<and>
   bbox_height 0 0 [\<lparr>box_x = 0, box_y = 0, box_width = 1, box_height = 1\<rparr>] = 1 \<and>
   constructor [\<lparr>box_x = 0, box_y = 0, box_width = 1, box_height = 1\<rparr>] 0 0 True False
     \<noteq> ReturnedNonFinite \<and>
   (\<exists>this. constructor [\<lparr>box_x = 0, box_y = 0, box_width = 1, box_height = 1\<rparr>] 0 0 True False
      = Returned this)"
proof -
  have w: "bbox_width 0 0 [\<lparr>box_x = 0, box_y = 0, box_width = 1, box_height = 1\<rparr>] = 1"
    and h: "bbox_height 0 0 [\<lparr>box_x = 0, box_y = 0, box_width = 1, box_height = 1\<rparr>] = 1"
    by (simp_all add: bbox_width_def bbox_height_def min_of_def max_of_def round_simps)
  show ?thesis
    using w h constructor_throws_only_on_empty
      [of 0 0 True False "[\<lparr>box_x = 0, box_y = 0, box_width = 1, box_height = 1\<rparr>]"]
    by simp
qed

text \<open>Claim C9 as stated fails: a box of width zero on the grid, with no border and no
  margin, gives a bounding box of width zero, and the constructor returns coordinates
  divided by it.\<close>

theorem zero_width_box_returns_nonfinite:
  "constructor [\<lparr>box_x = 0, box_y = 0, box_width = 0, box_height = 1\<rparr>] 0 0 True False
     = ReturnedNonFinite"
  by (rule constructor_nonfinite)
    (simp_all add: bbox_width_def min_of_def max_of_def round_simps)

text \<open>The reading of claim C6: the edges in ascending \<open>(x, y1, y2)\<close> order, and of them
  the last one, or the one before it when the direction is right to left.\<close>

definition lastPoint_by_sort_order :: "real \<Rightarrow> box list \<Rightarrow> bool \<Rightarrow> (real \<times> real) option" where
  "lastPoint_by_sort_order borderWidth boxes isLTR =
     (let sorted = sort_key (\<lambda>e. (edge_x e, edge_y1 e, edge_y2 e)) (raw_edges borderWidth boxes)
      in map_option (\<lambda>e. (edge_x e, edge_y2 e))
           (if isLTR then at_last sorted else at_before_last sorted))"

definition lastPoint_of :: "outliner outcome \<Rightarrow> (real \<times> real) option" where
  "lastPoint_of r = (case r of Returned this \<Rightarrow> Some (bb_lastPoint (o_box this)) | _ \<Rightarrow> None)"

text \<open>
  Claim C6, as amended. The constructor takes \<^verbatim>\<open>lastEdge\<close> from \<^verbatim>\<open>#verticalEdges\<close>
  before any sort, in the order in which the edges were pushed: \<^verbatim>\<open>lastPoint\<close> is the
  \<open>(x, y2)\<close> endpoint, in rounded page coordinates, of the right edge of the last box of
  the input when \<^verbatim>\<open>isLTR\<close> is true, and of the left edge of that box otherwise.
\<close>

theorem lastPoint_from_last_input_box:
  "constructor boxes bw im isLTR skip = Returned this \<Longrightarrow>
   boxes \<noteq> [] \<and>
   bb_lastPoint (o_box this) =
     (if isLTR then round_x2 bw (last boxes) else round_x1 bw (last boxes),
      round_y2 bw (last boxes))"
proof -
  assume r: "constructor boxes bw im isLTR skip = Returned this"
  have ne: "boxes \<noteq> []" using r constructor_empty[of bw im isLTR skip] by auto
  have nz: "bbox_width bw im boxes \<noteq> 0" "bbox_height bw im boxes \<noteq> 0"
    using r constructor_nonfinite[OF ne, of bw im isLTR skip] by auto
  from constructor_returned[OF ne nz, of skip isLTR] r
  have "o_box this = expected_box bw im isLTR boxes" by auto
  then show ?thesis using ne by (simp add: expected_box_def)
qed

theorem lastPoint_from_last_input_box_witness:
  "\<exists>this. constructor [\<lparr>box_x = 10, box_y = 0, box_width = 1, box_height = 1\<rparr>,
                       \<lparr>box_x = 0, box_y = 0, box_width = 1, box_height = 1\<rparr>] 0 0 False True
            = Returned this \<and>
          bb_lastPoint (o_box this) = (0, 1)"
proof -
  let ?boxes = "[\<lparr>box_x = 10, box_y = 0, box_width = 1, box_height = 1\<rparr>,
                 \<lparr>box_x = 0, box_y = 0, box_width = 1, box_height = 1\<rparr>]"
  have "bbox_width 0 0 ?boxes \<noteq> 0" "bbox_height 0 0 ?boxes \<noteq> 0"
    by (simp_all add: bbox_width_def bbox_height_def min_of_def max_of_def round_simps)
  then obtain this where t: "constructor ?boxes 0 0 False True = Returned this"
    using constructor_returned[of ?boxes 0 0 True False] by auto
  have "bb_lastPoint (o_box this) = (0, 1)"
    using lastPoint_from_last_input_box[OF t] by (simp add: round_simps)
  then show ?thesis using t by blast
qed

text \<open>Claim C6 as stated fails when the last box of the input is not the rightmost one.\<close>

theorem lastPoint_not_by_sort_order:
  "lastPoint_of (constructor [\<lparr>box_x = 10, box_y = 0, box_width = 1, box_height = 1\<rparr>,
                              \<lparr>box_x = 0, box_y = 0, box_width = 1, box_height = 1\<rparr>] 0 0 True True)
     = Some (1, 1) \<and>
   lastPoint_by_sort_order 0 [\<lparr>box_x = 10, box_y = 0, box_width = 1, box_height = 1\<rparr>,
                              \<lparr>box_x = 0, box_y = 0, box_width = 1, box_height = 1\<rparr>] True
     = Some (11, 1)"
proof -
  let ?boxes = "[\<lparr>box_x = 10, box_y = 0, box_width = 1, box_height = 1\<rparr>,
                 \<lparr>box_x = 0, box_y = 0, box_width = 1, box_height = 1\<rparr>]"
  have "bbox_width 0 0 ?boxes \<noteq> 0" "bbox_height 0 0 ?boxes \<noteq> 0"
    by (simp_all add: bbox_width_def bbox_height_def min_of_def max_of_def round_simps)
  then obtain this where t: "constructor ?boxes 0 0 True True = Returned this"
      and b: "o_box this = expected_box 0 0 True ?boxes"
    using constructor_returned[of ?boxes 0 0 True True] by auto
  have 1: "lastPoint_of (constructor ?boxes 0 0 True True) = Some (1, 1)"
    by (simp add: t b lastPoint_of_def expected_box_def round_simps)
  have 2: "lastPoint_by_sort_order 0 ?boxes True = Some (11, 1)"
    by (simp add: lastPoint_by_sort_order_def raw_edges_def left_edge_def right_edge_def
        round_simps edge_simps at_last_def)
  show ?thesis using 1 2 by simp
qed

text \<open>
  Claim C4, at an input where the code departs from it. The base lines \<open>y2 = 9\<close> (with
  \<open>minY1 = 8\<close>) and \<open>y2 = 10\<close> (with \<open>minY1 = 7\<close>) satisfy the claim's condition
  \<open>8 \<ge> 7\<close>, but \<^verbatim>\<open>currentY2 >= prevY2\<close> compares the key strings \<^verbatim>\<open>"10"\<close> and \<^verbatim>\<open>"9"\<close>,
  and the groups are not merged. The claim's own example (100 and 101) is merged.
\<close>

theorem baselines_9_and_10_not_merged:
  "merge_lines (ls_lineByBaseHeight (read_boxes 0
       [\<lparr>box_x = 0, box_y = 8, box_width = 10, box_height = 1\<rparr>,
        \<lparr>box_x = 12, box_y = 7, box_width = 8, box_height = 3\<rparr>]))
     = Inr [(9, \<lparr>lg_boxes = [\<lparr>lb_x1 = 0, lb_y1 = 8, lb_x2 = 10\<rparr>], lg_minY1 = 8\<rparr>),
            (10, \<lparr>lg_boxes = [\<lparr>lb_x1 = 12, lb_y1 = 7, lb_x2 = 20\<rparr>], lg_minY1 = 7\<rparr>)] \<and>
   merge_lines (ls_lineByBaseHeight (read_boxes 0
       [\<lparr>box_x = 0, box_y = 90, box_width = 10, box_height = 10\<rparr>,
        \<lparr>box_x = 12, box_y = 85, box_width = 8, box_height = 16\<rparr>]))
     = Inr [(101, \<lparr>lg_boxes = [\<lparr>lb_x1 = 0, lb_y1 = 90, lb_x2 = 10\<rparr>,
                                \<lparr>lb_x1 = 12, lb_y1 = 85, lb_x2 = 20\<rparr>], lg_minY1 = 85\<rparr>)]"
  by (simp add: read_boxes_def initial_state_def add_box_def Let_def round_simps
      math_min_def math_max_def merge_lines_def object_keys_def object_entries_def
      is_array_index_def string_simps)

text \<open>
  Claim C5, at an input where the code departs from it. On one base line with line
  height 10 the boxes \<open>[0, 10]\<close> and \<open>[25, 40]\<close> are 15 apart, which is not more than
  \<open>2 \<times> 10\<close>; the code compares \<^verbatim>\<open>currentBox.x2 - lastBox.x2 = 30\<close> and starts a new
  run. The claim's own example gives the runs \<open>[0, 20]\<close> and \<open>[200, 210]\<close>.
\<close>

theorem gap_of_15_starts_new_run:
  "collect partition_line (ls_lineByBaseHeight (read_boxes 0
       [\<lparr>box_x = 0, box_y = 90, box_width = 10, box_height = 10\<rparr>,
        \<lparr>box_x = 25, box_y = 90, box_width = 15, box_height = 10\<rparr>]))
     = Inr [(100, [\<lparr>lb_x1 = 0, lb_y1 = 90, lb_x2 = 10\<rparr>,
                   \<lparr>lb_x1 = 25, lb_y1 = 90, lb_x2 = 40\<rparr>])] \<and>
   collect partition_line (ls_lineByBaseHeight (read_boxes 0
       [\<lparr>box_x = 0, box_y = 90, box_width = 10, box_height = 10\<rparr>,
        \<lparr>box_x = 12, box_y = 90, box_width = 8, box_height = 10\<rparr>,
        \<lparr>box_x = 200, box_y = 90, box_width = 10, box_height = 10\<rparr>]))
     = Inr [(100, [\<lparr>lb_x1 = 0, lb_y1 = 90, lb_x2 = 20\<rparr>,
                   \<lparr>lb_x1 = 200, lb_y1 = 90, lb_x2 = 210\<rparr>])]"
  by (simp add: read_boxes_def initial_state_def add_box_def Let_def round_simps
      math_min_def math_max_def partition_line_def)

section \<open>Coordinates of the results\<close>

text \<open>A property \<open>P\<close> of numbers that holds for every coordinate of the edges holds for
  every coordinate of the outlines: the sweep and the walk only copy coordinates.\<close>

definition frag_ok :: "(real \<Rightarrow> bool) \<Rightarrow> fragment \<Rightarrow> bool" where
  "frag_ok P f \<longleftrightarrow> P (fst f) \<and> P (frag_lo f) \<and> P (frag_hi f)"



lemma frag_ok_triple [simp]: "frag_ok P (a, b, c) \<longleftrightarrow> P a \<and> P b \<and> P c"
  by (simp add: frag_ok_def frag_lo_def frag_hi_def)
























subsection \<open>Rounding is outward\<close>
















section \<open>A single box\<close>

























section \<open>The sweep and the boundary of the union\<close>













definition emitted :: "fragment list \<Rightarrow> real \<Rightarrow> real \<Rightarrow> bool" where
  "emitted out x y \<longleftrightarrow> (\<exists>f\<in>set out. fst f = x \<and> frag_covers f y)"

text \<open>The array \<^verbatim>\<open>outlineVerticalEdges\<close> that the loop of \<^verbatim>\<open>getOutlines\<close> builds and hands
  to \<^verbatim>\<open>#getOutlines\<close>.\<close>

definition outlineVerticalEdges :: "outliner \<Rightarrow> fragment list" where
  "outlineVerticalEdges this =
     fst (sweep (sort_key (\<lambda>e. (edge_x e, edge_y1 e, edge_y2 e)) (o_verticalEdges this))
            (o_intervals this) [])"








lemma sweep_out:
  "fst (sweep es ivs out) = out @ fst (sweep es ivs []) \<and>
   snd (sweep es ivs out) = snd (sweep es ivs [])"
proof (induction es arbitrary: ivs out)
  case Nil
  then show ?case by simp
next
  case (Cons e es)
  show ?case
    using Cons.IH[of "insert_interval ivs e" "out @ breakEdge ivs e"]
      Cons.IH[of "insert_interval ivs e" "breakEdge ivs e"]
      Cons.IH[of "remove_interval ivs e" "out @ breakEdge (remove_interval ivs e) e"]
      Cons.IH[of "remove_interval ivs e" "breakEdge (remove_interval ivs e) e"]
    by (simp add: Let_def)
qed




lemma emitted_append [simp]: "emitted (a @ b) x y \<longleftrightarrow> emitted a x y \<or> emitted b x y"
  unfolding emitted_def by auto













































lemma getOutlines_swept:
  "fst (getOutlines this) = getOutlines_private (snd (getOutlines this)) (outlineVerticalEdges this)"
  by (simp add: getOutlines_def outlineVerticalEdges_def Let_def)












end
